theory Spec2Isabelle
  imports Main "HOL-Library.Word" "HOL-Library.Multiset"
begin

unbundle bit_operations_syntax

section \<open>Go standard library: decimal and positional numerals\<close>

text \<open>
  The functions of this section are the parts of Go's \<^verbatim>\<open>strconv\<close> and \<^verbatim>\<open>fmt\<close> packages that
  \<^verbatim>\<open>subtitles.go\<close> calls. They are written from the documented behaviour of the library; a Go
  string is a sequence of bytes, here a \<^typ>\<open>char list\<close>. The platform is a 64-bit one
  (\<^verbatim>\<open>int\<close> is \<^verbatim>\<open>int64\<close>).
\<close>

datatype num_error = ErrSyntax | ErrRange | ErrBase | BaseZeroNotModelled

text \<open>The value of a digit as \<^verbatim>\<open>strconv.ParseUint\<close> reads it: 0-9, a-z, A-Z.\<close>

definition digit_val :: "char \<Rightarrow> nat option" where
  "digit_val c =
     (let n = (of_char c :: nat) in
      if 48 \<le> n \<and> n \<le> 57 then Some (n - 48)
      else if 97 \<le> n \<and> n \<le> 122 then Some (n - 97 + 10)
      else if 65 \<le> n \<and> n \<le> 90 then Some (n - 65 + 10)
      else None)"

text \<open>
  The digit loop of \<^verbatim>\<open>ParseUint\<close> at bit size 64: a byte that is no digit of the base is a
  syntax error, a value that leaves \<^verbatim>\<open>uint64\<close> a range error, whichever comes first.
\<close>

fun parse_digits :: "nat \<Rightarrow> nat \<Rightarrow> string \<Rightarrow> num_error + nat" where
  "parse_digits b acc [] = Inr acc"
| "parse_digits b acc (c # cs) =
     (case digit_val c of
        None \<Rightarrow> Inl ErrSyntax
      | Some d \<Rightarrow>
          if b \<le> d then Inl ErrSyntax
          else if 2 ^ 64 \<le> acc * b + d then Inl ErrRange
          else parse_digits b (acc * b + d) cs)"

definition ParseUint :: "string \<Rightarrow> int \<Rightarrow> num_error + nat" where
  "ParseUint s base =
     (if s = [] then Inl ErrSyntax
      else if base = 0 then Inl BaseZeroNotModelled
      else if base < 2 \<or> 36 < base then Inl ErrBase
      else parse_digits (nat base) 0 s)"

text \<open>
  \<^verbatim>\<open>strconv.ParseInt(s, base, 64)\<close>: an optional sign, then \<^verbatim>\<open>ParseUint\<close>, then the range check
  of \<^verbatim>\<open>int64\<close>. Base 0 (prefix detection and underscores) is not modelled; no caller in
  \<^verbatim>\<open>subtitles.go\<close> that the theorems below speak about uses it.
\<close>

definition ParseInt :: "string \<Rightarrow> int \<Rightarrow> num_error + int" where
  "ParseInt s base =
     (if s = [] then Inl ErrSyntax
      else
        let neg = (hd s = CHR ''-'');
            s' = (if hd s = CHR ''+'' \<or> hd s = CHR ''-'' then tl s else s)
        in case ParseUint s' base of
             Inl ErrRange \<Rightarrow> Inl ErrRange
           | Inl e \<Rightarrow> Inl e
           | Inr un \<Rightarrow>
               if \<not> neg \<and> 2 ^ 63 \<le> un then Inl ErrRange
               else if neg \<and> 2 ^ 63 < un then Inl ErrRange
               else Inr (if neg then - int un else int un))"

text \<open>\<^verbatim>\<open>strconv.Atoi(s)\<close> is \<^verbatim>\<open>ParseInt(s, 10, 0)\<close> converted to \<^verbatim>\<open>int\<close>.\<close>

definition Atoi :: "string \<Rightarrow> num_error + int" where
  "Atoi s = ParseInt s 10"

text \<open>Writing a number: the digits of \<open>n\<close> in base \<open>b\<close>, most significant first.\<close>

definition digit_char :: "nat \<Rightarrow> char" where
  "digit_char d = (if d < 10 then char_of (48 + d) else char_of (87 + d))"

fun nat_digits :: "nat \<Rightarrow> nat \<Rightarrow> string" where
  "nat_digits b n =
     (if b < 2 \<or> n < b then [digit_char n]
      else nat_digits b (n div b) @ [digit_char (n mod b)])"

declare nat_digits.simps [simp del]

text \<open>\<^verbatim>\<open>strconv.Itoa\<close>: decimal, with a minus sign for a negative number.\<close>

definition Itoa :: "int \<Rightarrow> string" where
  "Itoa i = (if i < 0 then CHR ''-'' # nat_digits 10 (nat (- i)) else nat_digits 10 (nat i))"

text \<open>Left padding with zeros to a minimum number of digits (a precision of \<^verbatim>\<open>%x\<close>, \<^verbatim>\<open>%d\<close>).\<close>

definition zero_pad :: "nat \<Rightarrow> string \<Rightarrow> string" where
  "zero_pad w ds = replicate (w - length ds) (CHR ''0'') @ ds"

subsection \<open>Reading back what was written\<close>

lemma digit_val_digit_char: "d < 36 \<Longrightarrow> digit_val (digit_char d) = Some d"
  by (simp add: digit_val_def digit_char_def Let_def)

lemma parse_digits_append:
  "parse_digits b acc (xs @ ys) =
     (case parse_digits b acc xs of Inl e \<Rightarrow> Inl e | Inr v \<Rightarrow> parse_digits b v ys)"
  by (induction xs arbitrary: acc) (auto split: option.splits)

lemma parse_digits_nat_digits:
  "2 \<le> b \<Longrightarrow> b \<le> 36 \<Longrightarrow> acc * b ^ length (nat_digits b n) + n < 2 ^ 64 \<Longrightarrow>
   parse_digits b acc (nat_digits b n) = Inr (acc * b ^ length (nat_digits b n) + n)"
proof (induction b n arbitrary: acc rule: nat_digits.induct)
  case (1 b n)
  show ?case
  proof (cases "n < b")
    case True
    have one: "nat_digits b n = [digit_char n]"
      using True by (subst nat_digits.simps) simp
    from True "1.prems" have "n < 36" by simp
    with True "1.prems" show ?thesis
      by (simp add: one digit_val_digit_char not_le)
  next
    case False
    let ?ds = "nat_digits b (n div b)"
    have unfold: "nat_digits b n = ?ds @ [digit_char (n mod b)]"
      using False "1.prems"(1) by (subst nat_digits.simps) (simp add: not_less)
    have len: "length (nat_digits b n) = Suc (length ?ds)"
      by (simp add: unfold)
    have split: "acc * b ^ length (nat_digits b n) + n
        = (acc * b ^ length ?ds + n div b) * b + n mod b"
      by (simp add: len algebra_simps)
    have small: "acc * b ^ length ?ds + n div b < 2 ^ 64"
    proof -
      have "acc * b ^ length ?ds + n div b \<le> (acc * b ^ length ?ds + n div b) * b"
        using "1.prems"(1) by simp
      also have "\<dots> \<le> acc * b ^ length (nat_digits b n) + n"
        by (simp add: split)
      finally show ?thesis using "1.prems"(3) by simp
    qed
    have ih: "parse_digits b acc ?ds = Inr (acc * b ^ length ?ds + n div b)"
      using "1.IH" False "1.prems"(1,2) small by simp
    have "n mod b < b"
      using "1.prems"(1) by simp
    then have dlt: "n mod b < 36"
      using "1.prems"(2) by simp
    have blt: "\<not> b \<le> n mod b"
      using "1.prems"(1) by (simp add: not_le)
    have fin: "\<not> 2 ^ 64 \<le> (acc * b ^ length ?ds + n div b) * b + n mod b"
      using "1.prems"(3) split by simp
    show ?thesis
      unfolding unfold parse_digits_append ih
      using dlt blt fin split len
      by (simp add: digit_val_digit_char unfold)
  qed
qed

lemma parse_digits_zeros:
  "2 \<le> b \<Longrightarrow> parse_digits b 0 (replicate k (CHR ''0'') @ ds) = parse_digits b 0 ds"
  by (induction k) (simp_all add: digit_val_def)

lemma nat_digits_not_Nil: "nat_digits b n \<noteq> []"
  by (subst nat_digits.simps) simp

lemma nat_digits_chars:
  "2 \<le> b \<Longrightarrow> c \<in> set (nat_digits b n) \<Longrightarrow> \<exists>d<b. c = digit_char d"
proof (induction b n rule: nat_digits.induct)
  case (1 b n)
  show ?case
  proof (cases "n < b")
    case True
    then have "nat_digits b n = [digit_char n]"
      by (subst nat_digits.simps) simp
    with "1.prems" True show ?thesis by auto
  next
    case False
    then have "nat_digits b n = nat_digits b (n div b) @ [digit_char (n mod b)]"
      using "1.prems"(1) by (subst nat_digits.simps) (simp add: not_less)
    with "1.prems" have "c \<in> set (nat_digits b (n div b)) \<or> c = digit_char (n mod b)"
      by auto
    then show ?thesis
    proof
      assume "c \<in> set (nat_digits b (n div b))"
      then show ?thesis using "1.IH" False "1.prems"(1) by simp
    next
      assume "c = digit_char (n mod b)"
      moreover have "n mod b < b" using "1.prems"(1) by simp
      ultimately show ?thesis by blast
    qed
  qed
qed

lemma digit_char_not_sign:
  "d < 36 \<Longrightarrow> digit_char d \<noteq> CHR ''+'' \<and> digit_char d \<noteq> CHR ''-''"
proof -
  assume "d < 36"
  then have "digit_val (digit_char d) = Some d" by (rule digit_val_digit_char)
  moreover have "digit_val (CHR ''+'') = None" "digit_val (CHR ''-'') = None"
    by (simp_all add: digit_val_def)
  ultimately show ?thesis by auto
qed

lemma ParseInt_unsigned:
  assumes "s \<noteq> []" "hd s \<noteq> CHR ''+''" "hd s \<noteq> CHR ''-''" "2 \<le> b" "b \<le> 36"
    and "parse_digits (nat b) 0 s = Inr v" "v < 2 ^ 63"
  shows "ParseInt s b = Inr (int v)"
  using assms by (simp add: ParseInt_def ParseUint_def)

section \<open>Errors of the package\<close>

text \<open>
  Every error return of \<^verbatim>\<open>subtitles.go\<close> that the functions below can take, and the one run-time
  panic (a slice expression out of range), as values. \<open>AtoiFailed s e\<close> is
  \<^verbatim>\<open>errors.Wrapf(err, "astisub: atoi of %s failed", s)\<close>: it carries the token \<open>s\<close>.
\<close>

datatype error =
    ParseIntFailed string int num_error
  | AtoiFailed string num_error
  | InvalidMillisecondDigits string
  | NoHoursMinutesSeconds string
  | SliceOutOfRange

section \<open>Color\<close>

record Color =
  Alpha :: "8 word"
  Blue :: "8 word"
  Green :: "8 word"
  Red :: "8 word"

text \<open>\<^verbatim>\<open>newColorFromString\<close>: the parsed \<^verbatim>\<open>int64\<close> is shifted and cut to a byte per channel.\<close>

definition newColorFromString :: "string \<Rightarrow> int \<Rightarrow> error + Color" where
  "newColorFromString s base =
     (case ParseInt s base of
        Inl e \<Rightarrow> Inl (ParseIntFailed s base e)
      | Inr i \<Rightarrow>
          let w = (word_of_int i :: 64 word) in
          Inr \<lparr>Alpha = ucast (signed_drop_bit 24 w) AND 0xff,
               Blue = ucast (signed_drop_bit 16 w) AND 0xff,
               Green = ucast (signed_drop_bit 8 w) AND 0xff,
               Red = ucast w AND 0xff\<rparr>)"

text \<open>The packed word of \<^verbatim>\<open>Color.String\<close>: \<^verbatim>\<open>Alpha<<24 | Blue<<16 | Green<<8 | Red\<close>.\<close>

definition packed :: "Color \<Rightarrow> 32 word" where
  "packed c =
     push_bit 24 (ucast (Alpha c)) OR push_bit 16 (ucast (Blue c))
       OR push_bit 8 (ucast (Green c)) OR ucast (Red c)"

text \<open>
  \<^verbatim>\<open>Color.String\<close>: \<^verbatim>\<open>fmt.Sprintf("%.8x", i)\<close> for base 16 (lower-case hexadecimal, at
  least eight digits), \<^verbatim>\<open>strconv.Itoa(int(i))\<close> for every other base.
\<close>

definition Color_String :: "Color \<Rightarrow> int \<Rightarrow> string" where
  "Color_String c base =
     (let i = packed c in
      if base = 16 then zero_pad 8 (nat_digits 16 (unat i))
      else Itoa (int (unat i)))"

subsection \<open>The packed word determines the channels\<close>

lemma and_0xff: "x AND (0xff :: 8 word) = x"
proof -
  have "(0xff :: 8 word) = - 1" by simp
  then show ?thesis by (metis and.right_neutral)
qed

lemma unpack_Alpha:
  "ucast (signed_drop_bit 24 (ucast (packed c) :: 64 word)) AND (0xff :: 8 word)
     = Alpha c"
  unfolding and_0xff
  apply (simp add: packed_def)
  apply (rule bit_word_eqI)
  apply (auto simp add: bit_simps dest: bit_imp_le_length)
  done

lemma unpack_Blue:
  "ucast (signed_drop_bit 16 (ucast (packed c) :: 64 word)) AND (0xff :: 8 word)
     = Blue c"
  unfolding and_0xff
  apply (simp add: packed_def)
  apply (rule bit_word_eqI)
  apply (auto simp add: bit_simps dest: bit_imp_le_length)
  done

lemma unpack_Green:
  "ucast (signed_drop_bit 8 (ucast (packed c) :: 64 word)) AND (0xff :: 8 word)
     = Green c"
  unfolding and_0xff
  apply (simp add: packed_def)
  apply (rule bit_word_eqI)
  apply (auto simp add: bit_simps dest: bit_imp_le_length)
  done

lemma unpack_Red:
  "ucast (ucast (packed c) :: 64 word) AND (0xff :: 8 word) = Red c"
  unfolding and_0xff
  apply (simp add: packed_def)
  apply (rule bit_word_eqI)
  apply (auto simp add: bit_simps dest: bit_imp_le_length)
  done

lemma unat_packed_bound: "unat (packed c) < 2 ^ 32"
  using unsigned_less [of "packed c", where ?'a = nat] by simp

lemma ParseInt_nat_digits:
  assumes b: "2 \<le> b" "b \<le> 36" and n: "n < 2 ^ 63"
  shows "ParseInt (replicate k (CHR ''0'') @ nat_digits (nat b) n) b = Inr (int n)"
proof -
  let ?s = "replicate k (CHR ''0'') @ nat_digits (nat b) n"
  have nb: "2 \<le> nat b" "nat b \<le> 36" using b by simp_all
  have ne: "?s \<noteq> []" by (simp add: nat_digits_not_Nil)
  have "\<forall>c \<in> set ?s. \<exists>d<36. c = digit_char d"
  proof
    fix c assume "c \<in> set ?s"
    then consider "c = CHR ''0''" | "c \<in> set (nat_digits (nat b) n)" by auto
    then show "\<exists>d<36. c = digit_char d"
    proof cases
      case 1
      have "digit_char 0 = CHR ''0''" by code_simp
      with 1 show ?thesis by (intro exI [of _ 0]) simp
    next
      case 2
      from nat_digits_chars [OF nb(1) 2] obtain d where "d < nat b" "c = digit_char d" by blast
      with nb(2) show ?thesis by (intro exI [of _ d]) simp
    qed
  qed
  moreover have "hd ?s \<in> set ?s" using ne by (rule hd_in_set)
  ultimately obtain d where "d < 36" "hd ?s = digit_char d" by blast
  then have sign: "hd ?s \<noteq> CHR ''+''" "hd ?s \<noteq> CHR ''-''"
    using digit_char_not_sign by simp_all
  have "n < 2 ^ 64" using n by simp
  then have "parse_digits (nat b) 0 (nat_digits (nat b) n) = Inr n"
    using parse_digits_nat_digits [OF nb, of 0 n] by simp
  then have "parse_digits (nat b) 0 ?s = Inr n"
    by (simp add: parse_digits_zeros [OF nb(1)])
  from ParseInt_unsigned [OF ne sign b this n] show ?thesis .
qed

text \<open>
  C2. For every Color, \<^verbatim>\<open>newColorFromString(c.String(16), 16)\<close> and
  \<^verbatim>\<open>newColorFromString(c.String(10), 10)\<close> both succeed and give back the four channels of
  \<open>c\<close>; the strings are the hexadecimal (eight digits) and the decimal numeral of the packed
  word \<^verbatim>\<open>alpha<<24 | blue<<16 | green<<8 | red\<close>.
\<close>

theorem color_string_roundtrip:
  "newColorFromString (Color_String c 16) 16 = Inr c
   \<and> newColorFromString (Color_String c 10) 10 = Inr c
   \<and> packed c = push_bit 24 (ucast (Alpha c)) OR push_bit 16 (ucast (Blue c))
        OR push_bit 8 (ucast (Green c)) OR ucast (Red c)"
proof -
  have small: "unat (packed c) < 2 ^ 63"
    using unat_packed_bound [of c] by simp
  have hex: "ParseInt (Color_String c 16) 16 = Inr (int (unat (packed c)))"
    using ParseInt_nat_digits [of 16 "unat (packed c)" "8 - length (nat_digits 16 (unat (packed c)))"]
      small
    by (simp add: Color_String_def zero_pad_def Let_def)
  have dec: "ParseInt (Color_String c 10) 10 = Inr (int (unat (packed c)))"
    using ParseInt_nat_digits [of 10 "unat (packed c)" 0] small
    by (simp add: Color_String_def Itoa_def Let_def)
  have "newColorFromString (Color_String c 16) 16 = Inr c"
    by (simp add: newColorFromString_def hex Let_def
        unpack_Alpha unpack_Blue unpack_Green unpack_Red)
  moreover have "newColorFromString (Color_String c 10) 10 = Inr c"
    by (simp add: newColorFromString_def dec Let_def
        unpack_Alpha unpack_Blue unpack_Green unpack_Red)
  ultimately show ?thesis by (simp add: packed_def)
qed

section \<open>The data model\<close>

text \<open>
  The structs of \<^verbatim>\<open>subtitles.go\<close> as records. A \<^verbatim>\<open>time.Duration\<close> is a number of nanoseconds,
  here an \<^typ>\<open>int\<close>; the functions of the timing algebra only compare, copy and subtract
  durations. A field that points to a \<^verbatim>\<open>StyleAttributes\<close>, a \<^verbatim>\<open>Style\<close> or a \<^verbatim>\<open>Region\<close> is a
  reference (\<open>None\<close> is \<^verbatim>\<open>nil\<close>); none of the functions below follows such a reference, they
  copy it. The sequence \<^verbatim>\<open>Items\<close> holds pointers to Items in Go. Unless a section says
  otherwise it is modelled as the list of the Items pointed to, which is exact for a
  document whose item pointers are non-nil and pairwise distinct: an assignment through
  \<^verbatim>\<open>s.Items[i]\<close> is then the update of position \<open>i\<close>.
\<close>

type_synonym duration = int

definition Millisecond :: duration where "Millisecond = 1000000"
definition Second :: duration where "Second = 1000 * Millisecond"
definition Minute :: duration where "Minute = 60 * Second"
definition Hour :: duration where "Hour = 60 * Minute"

type_synonym ref = "nat option"

record LineItem =
  LineItem_InlineStyle :: ref
  LineItem_Style :: ref
  Text :: string

record Line =
  Line_Items :: "LineItem list"
  VoiceName :: string

record Item =
  Comments :: "string list"
  EndAt :: duration
  InlineStyle :: ref
  Lines :: "Line list"
  Region :: ref
  StartAt :: duration
  Style :: ref

record Region =
  Region_ID :: string
  Region_InlineStyle :: ref
  Region_Style :: ref

record Style =
  Style_ID :: string
  Style_InlineStyle :: ref
  Style_Style :: ref

record Metadata =
  Metadata_Comments :: "string list"
  Copyright :: string
  Framerate :: int
  Language :: string
  Title :: string

record Subtitles =
  Items :: "Item list"
  Metadata :: "Metadata option"
  Regions :: "string \<rightharpoonup> Region"
  Styles :: "string \<rightharpoonup> Style"

text \<open>\<^verbatim>\<open>strings.Join\<close>.\<close>

fun Join :: "string list \<Rightarrow> string \<Rightarrow> string" where
  "Join [] sep = []"
| "Join [x] sep = x"
| "Join (x # y # ys) sep = x @ sep @ Join (y # ys) sep"

text \<open>\<^verbatim>\<open>Line.String\<close> and \<^verbatim>\<open>Item.String\<close>: the rendered text.\<close>

definition Line_String :: "Line \<Rightarrow> string" where
  "Line_String l = Join (map Text (Line_Items l)) '' ''"

definition Item_String :: "Item \<Rightarrow> string" where
  "Item_String i = Join (map Line_String (Lines i)) '' - ''"

section \<open>Ordering\<close>

text \<open>
  The inner loop of \<^verbatim>\<open>Order\<close>, from \<open>index\<close> on: a pair of neighbours whose keys are strictly
  out of order is exchanged and \<open>swapped\<close> is set. The key is a parameter.
\<close>

function order_pass :: "('a \<Rightarrow> int) \<Rightarrow> nat \<Rightarrow> 'a list \<Rightarrow> bool \<Rightarrow> 'a list \<times> bool" where
  "order_pass key index xs swapped =
     (if index < length xs then
        (if key (xs ! (index - 1)) > key (xs ! index)
         then order_pass key (index + 1) (xs[index - 1 := xs ! index, index := xs ! (index - 1)]) True
         else order_pass key (index + 1) xs swapped)
      else (xs, swapped))"
  by pat_completeness auto
termination
  by (relation "measure (\<lambda>(key, index, xs, swapped). length xs - index)") auto

declare order_pass.simps [simp del]

text \<open>The number of pairs of positions whose keys are strictly out of order.\<close>

fun inversions :: "('a \<Rightarrow> int) \<Rightarrow> 'a list \<Rightarrow> nat" where
  "inversions key [] = 0"
| "inversions key (x # xs) = length (filter (\<lambda>y. key y < key x) xs) + inversions key xs"

fun cross :: "('a \<Rightarrow> int) \<Rightarrow> 'a list \<Rightarrow> 'a list \<Rightarrow> nat" where
  "cross key [] bs = 0"
| "cross key (a # as) bs = length (filter (\<lambda>y. key y < key a) bs) + cross key as bs"

lemma inversions_append:
  "inversions key (as @ bs) = inversions key as + inversions key bs + cross key as bs"
  by (induction as) auto

lemma cross_swap: "cross key as (a # b # bs) = cross key as (b # a # bs)"
  by (induction as) auto

lemma inversions_swap:
  "key b < key a \<Longrightarrow>
   Suc (inversions key (as @ b # a # bs)) = inversions key (as @ a # b # bs)"
  by (simp add: inversions_append cross_swap)

lemma swap_as_append:
  assumes "0 < i" "i < length xs"
  shows "xs = take (i - 1) xs @ xs ! (i - 1) # xs ! i # drop (Suc i) xs"
    and "xs[i - 1 := xs ! i, i := xs ! (i - 1)]
          = take (i - 1) xs @ xs ! i # xs ! (i - 1) # drop (Suc i) xs"
proof -
  obtain j where j: "i = Suc j" using assms(1) by (cases i) auto
  have "xs = take j xs @ drop j xs" by simp
  also have "drop j xs = xs ! j # drop (Suc j) xs"
    using assms(2) j by (simp add: Cons_nth_drop_Suc)
  also have "drop (Suc j) xs = xs ! Suc j # drop (Suc (Suc j)) xs"
    using assms(2) j by (simp add: Cons_nth_drop_Suc)
  finally have eq: "xs = take j xs @ xs ! j # xs ! Suc j # drop (Suc (Suc j)) xs" .
  then show "xs = take (i - 1) xs @ xs ! (i - 1) # xs ! i # drop (Suc i) xs"
    using j by simp
  have len: "length (take j xs) = j" using assms(2) j by simp
  have "xs[j := xs ! Suc j, Suc j := xs ! j]
      = (take j xs @ xs ! j # xs ! Suc j # drop (Suc (Suc j)) xs)[j := xs ! Suc j, Suc j := xs ! j]"
    using eq by simp
  also have "\<dots> = take j xs @ xs ! Suc j # xs ! j # drop (Suc (Suc j)) xs"
    using len by (simp add: list_update_append)
  finally show "xs[i - 1 := xs ! i, i := xs ! (i - 1)]
          = take (i - 1) xs @ xs ! i # xs ! (i - 1) # drop (Suc i) xs"
    using j by simp
qed


lemma order_swap_step:
  assumes "0 < i" "i < length xs" "key (xs ! i) < key (xs ! (i - 1))"
  defines "ys \<equiv> xs[i - 1 := xs ! i, i := xs ! (i - 1)]"
  shows "mset ys = mset xs"
    and "filter (\<lambda>x. key x = k) ys = filter (\<lambda>x. key x = k) xs"
    and "Suc (inversions key ys) = inversions key xs"
proof -
  obtain as a b bs where xs: "xs = as @ a # b # bs" and ys: "ys = as @ b # a # bs"
    and ab: "key b < key a"
    unfolding ys_def using swap_as_append [OF assms(1,2)] assms(3) by blast
  show "mset ys = mset xs"
    unfolding xs ys by simp
  show "filter (\<lambda>x. key x = k) ys = filter (\<lambda>x. key x = k) xs"
    unfolding xs ys using ab by auto
  show "Suc (inversions key ys) = inversions key xs"
    unfolding xs ys using ab by (rule inversions_swap)
qed

lemma order_pass_props:
  "0 < index \<Longrightarrow> order_pass key index xs sw = (ys, sw') \<Longrightarrow>
     mset ys = mset xs
     \<and> (\<forall>k. filter (\<lambda>x. key x = k) ys = filter (\<lambda>x. key x = k) xs)
     \<and> inversions key ys \<le> inversions key xs
     \<and> (sw' \<longrightarrow> sw \<or> inversions key ys < inversions key xs)
     \<and> (sw \<longrightarrow> sw')"
proof (induction key index xs sw arbitrary: ys sw' rule: order_pass.induct)
  case (1 key index xs swapped)
  show ?case
  proof (cases "index < length xs")
    case False
    with "1.prems" show ?thesis by (simp add: order_pass.simps)
  next
    case in_range: True
    show ?thesis
    proof (cases "key (xs ! index) < key (xs ! (index - 1))")
      case True
      let ?xs' = "xs[index - 1 := xs ! index, index := xs ! (index - 1)]"
      have run: "order_pass key (index + 1) ?xs' True = (ys, sw')"
        using "1.prems"(2) in_range True by (subst (asm) order_pass.simps) simp
      have ih: "mset ys = mset ?xs'
          \<and> (\<forall>k. filter (\<lambda>x. key x = k) ys = filter (\<lambda>x. key x = k) ?xs')
          \<and> inversions key ys \<le> inversions key ?xs' \<and> sw'"
        using "1.IH"(1) [OF in_range _ _ run] True by simp
      note step = order_swap_step [OF "1.prems"(1) in_range True]
      from ih step(1) have "mset ys = mset xs" by simp
      moreover from ih step(2) have "\<forall>k. filter (\<lambda>x. key x = k) ys = filter (\<lambda>x. key x = k) xs"
        by simp
      moreover from ih step(3) have "inversions key ys < inversions key xs"
        by linarith
      moreover from ih have "sw'" by simp
      ultimately show ?thesis by simp
    next
      case False
      have run: "order_pass key (index + 1) xs swapped = (ys, sw')"
        using "1.prems"(2) in_range False by (subst (asm) order_pass.simps) simp
      show ?thesis
        using "1.IH"(2) [OF in_range _ _ run] False by simp
    qed
  qed
qed

lemma order_pass_unswapped:
  "0 < index \<Longrightarrow> order_pass key index xs False = (ys, False) \<Longrightarrow>
     ys = xs \<and> (\<forall>j. index \<le> j \<and> j < length xs \<longrightarrow> key (xs ! (j - 1)) \<le> key (xs ! j))"
proof (induction "length xs - index" arbitrary: index)
  case 0
  then show ?case by (subst (asm) order_pass.simps) simp
next
  case (Suc n)
  then have in_range: "index < length xs" by simp
  show ?case
  proof (cases "key (xs ! index) < key (xs ! (index - 1))")
    case True
    let ?xs' = "xs[index - 1 := xs ! index, index := xs ! (index - 1)]"
    have "order_pass key (index + 1) ?xs' True = (ys, False)"
      using Suc.prems(2) in_range True by (subst (asm) order_pass.simps) simp
    from order_pass_props [OF _ this] show ?thesis by simp
  next
    case False
    have run: "order_pass key (index + 1) xs False = (ys, False)"
      using Suc.prems(2) in_range False by (subst (asm) order_pass.simps) simp
    have "n = length xs - (index + 1)" using Suc.hyps(2) by simp
    from Suc.hyps(1) [OF this _ run]
    have "ys = xs" and rest: "\<forall>j. index + 1 \<le> j \<and> j < length xs \<longrightarrow> key (xs ! (j - 1)) \<le> key (xs ! j)"
      by simp_all
    have "key (xs ! (j - 1)) \<le> key (xs ! j)" if "index \<le> j" "j < length xs" for j
    proof (cases "j = index")
      case True
      with False show ?thesis by simp
    next
      case False
      with that rest show ?thesis by simp
    qed
    with \<open>ys = xs\<close> show ?thesis by simp
  qed
qed

lemma order_pass_sorted:
  "sorted (map key xs) \<Longrightarrow> 0 < index \<Longrightarrow> order_pass key index xs sw = (xs, sw)"
proof (induction "length xs - index" arbitrary: index)
  case 0
  then show ?case by (subst order_pass.simps) simp
next
  case (Suc n)
  then have in_range: "index < length xs" by simp
  have "map key xs ! (index - 1) \<le> map key xs ! index"
    using Suc.prems(1) in_range by (intro sorted_nth_mono) simp_all
  then have le: "key (xs ! (index - 1)) \<le> key (xs ! index)"
    using in_range by simp
  have "n = length xs - (index + 1)" using Suc.hyps(2) by simp
  from Suc.hyps(1) [OF this Suc.prems(1)]
  have "order_pass key (index + 1) xs sw = (xs, sw)" by simp
  then show ?case
    using in_range le by (subst order_pass.simps) simp
qed

text \<open>The outer loop of \<^verbatim>\<open>Order\<close>: passes are repeated until one exchanges nothing.\<close>

function order_loop :: "('a \<Rightarrow> int) \<Rightarrow> 'a list \<Rightarrow> 'a list" where
  "order_loop key xs =
     (case order_pass key 1 xs False of
        (ys, swapped) \<Rightarrow> if swapped then order_loop key ys else ys)"
  by pat_completeness auto
termination
  apply (relation "measure (\<lambda>(key, xs). inversions key xs)")
   apply simp
  apply simp
  subgoal for key xs x y
    using order_pass_props [of 1 key xs False x True] by simp
  done

declare order_loop.simps [simp del]

definition Order_by :: "('a \<Rightarrow> int) \<Rightarrow> 'a list \<Rightarrow> 'a list" where
  "Order_by key xs = (if length xs \<le> 1 then xs else order_loop key xs)"


lemma order_loop_props:
  "mset (order_loop key xs) = mset xs
   \<and> (\<forall>k. filter (\<lambda>x. key x = k) (order_loop key xs) = filter (\<lambda>x. key x = k) xs)
   \<and> sorted (map key (order_loop key xs))"
proof (induction key xs rule: order_loop.induct)
  case (1 key xs)
  obtain ys sw where pass: "order_pass key 1 xs False = (ys, sw)"
    by (cases "order_pass key 1 xs False")
  show ?case
  proof (cases sw)
    case True
    have loop: "order_loop key xs = order_loop key ys"
      using pass True by (subst order_loop.simps) simp
    have ih: "mset (order_loop key ys) = mset ys
       \<and> (\<forall>k. filter (\<lambda>x. key x = k) (order_loop key ys) = filter (\<lambda>x. key x = k) ys)
       \<and> sorted (map key (order_loop key ys))"
      using "1.IH" [OF pass [symmetric]] True by simp
    from order_pass_props [OF _ pass]
    have "mset ys = mset xs" "\<forall>k. filter (\<lambda>x. key x = k) ys = filter (\<lambda>x. key x = k) xs"
      by simp_all
    with ih show ?thesis unfolding loop by simp
  next
    case False
    have loop: "order_loop key xs = xs"
      using pass False order_pass_unswapped [of 1 key xs ys]
      by (subst order_loop.simps) simp
    have adj: "\<forall>j. 1 \<le> j \<and> j < length xs \<longrightarrow> key (xs ! (j - 1)) \<le> key (xs ! j)"
      using pass False order_pass_unswapped [of 1 key xs ys] by simp
    have "sorted (map key xs)"
      unfolding sorted_iff_nth_Suc
    proof (intro allI impI)
      fix i assume "Suc i < length (map key xs)"
      then have "Suc i < length xs" by simp
      with adj [rule_format, of "Suc i"] have "key (xs ! (Suc i - 1)) \<le> key (xs ! Suc i)"
        by simp
      then show "map key xs ! i \<le> map key xs ! Suc i"
        using \<open>Suc i < length xs\<close> by simp
    qed
    then show ?thesis unfolding loop by simp
  qed
qed

lemma order_loop_sorted: "sorted (map key xs) \<Longrightarrow> order_loop key xs = xs"
  using order_pass_sorted [of key xs 1 False]
  by (subst order_loop.simps) simp

lemma Order_by_mset: "mset (Order_by key xs) = mset xs"
  by (simp add: Order_by_def order_loop_props)

lemma Order_by_stable:
  "filter (\<lambda>x. key x = k) (Order_by key xs) = filter (\<lambda>x. key x = k) xs"
  by (simp add: Order_by_def order_loop_props)

lemma Order_by_sorted: "sorted (map key (Order_by key xs))"
proof (cases "length xs \<le> 1")
  case True
  then have "length (map key xs) \<le> 1" by simp
  then have "sorted (map key xs)"
    by (cases "map key xs" rule: list.exhaust) (auto simp: Suc_le_eq)
  with True show ?thesis by (simp add: Order_by_def)
next
  case False
  then show ?thesis by (simp add: Order_by_def order_loop_props)
qed

lemma Order_by_sorted_id: "sorted (map key xs) \<Longrightarrow> Order_by key xs = xs"
  by (simp add: Order_by_def order_loop_sorted)

lemma Order_by_idem: "Order_by key (Order_by key xs) = Order_by key xs"
  by (rule Order_by_sorted_id) (rule Order_by_sorted)

lemma Order_by_length: "length (Order_by key xs) = length xs"
  using Order_by_mset [of key xs] by (metis size_mset)

lemma Order_by_set: "set (Order_by key xs) = set xs"
  using Order_by_mset [of key xs] by (metis set_mset_mset)

lemma Order_by_sort_key: "Order_by key xs = sort_key key xs"
proof -
  let ?ys = "Order_by key xs"
  have perm: "mset ?ys = mset xs" by (rule Order_by_mset)
  have srt: "sorted (map key ?ys)" by (rule Order_by_sorted)
  have "sort_key key xs = ?ys"
  proof (rule properties_for_sort_key [OF perm _ srt])
    fix k assume "k \<in> set ?ys"
    have h: "(\<lambda>x. key k = key x) = (\<lambda>x. key x = key k)" by auto
    show "filter (\<lambda>x. key k = key x) ?ys = filter (\<lambda>x. key k = key x) xs"
      by (simp only: h Order_by_stable)
  qed
  then show ?thesis by simp
qed


text \<open>\<^verbatim>\<open>Subtitles.Order\<close>.\<close>

definition Order :: "Subtitles \<Rightarrow> Subtitles" where
  "Order s = s\<lparr>Items := Order_by StartAt (Items s)\<rparr>"

text \<open>
  C3. \<^verbatim>\<open>Order\<close> is a stable ascending sort by \<^verbatim>\<open>StartAt\<close> and is idempotent: the result is a
  permutation of the input, ascending by \<^verbatim>\<open>StartAt\<close>; the items of any one start offset stand
  in the order they had in the input; ordering twice is ordering once. The result is the
  one that the library's stable insertion sort gives.
\<close>

theorem Order_stable_sort_idempotent:
  "mset (Items (Order s)) = mset (Items s)
   \<and> sorted (map StartAt (Items (Order s)))
   \<and> (\<forall>t. filter (\<lambda>i. StartAt i = t) (Items (Order s)) = filter (\<lambda>i. StartAt i = t) (Items s))
   \<and> Order (Order s) = Order s
   \<and> Items (Order s) = sort_key StartAt (Items s)"
proof -
  let ?ys = "Order_by StartAt (Items s)"
  have perm: "mset ?ys = mset (Items s)" by (rule Order_by_mset)
  have srt: "sorted (map StartAt ?ys)" by (rule Order_by_sorted)
  have stable: "filter (\<lambda>i. StartAt i = t) ?ys = filter (\<lambda>i. StartAt i = t) (Items s)" for t
    by (rule Order_by_stable)
  have "sort_key StartAt (Items s) = ?ys"
  proof (rule properties_for_sort_key [OF perm _ srt])
    fix k assume "k \<in> set ?ys"
    have h: "(\<lambda>x. StartAt k = StartAt x) = (\<lambda>i. StartAt i = StartAt k)" by auto
    show "filter (\<lambda>x. StartAt k = StartAt x) ?ys = filter (\<lambda>x. StartAt k = StartAt x) (Items s)"
      by (simp only: h stable)
  qed
  then show ?thesis
    using perm srt stable by (simp add: Order_def Order_by_idem)
qed

section \<open>Duration and ForceDuration\<close>

text \<open>\<^verbatim>\<open>Subtitles.Duration\<close>: the end of the item at the last position, zero without items.\<close>

definition Duration :: "Subtitles \<Rightarrow> duration" where
  "Duration s = (if length (Items s) = 0 then 0 else EndAt (Items s ! (length (Items s) - 1)))"

text \<open>
  The loop of \<^verbatim>\<open>ForceDuration\<close> from \<open>index\<close> on. It stops at the first item that starts at
  or after \<open>d\<close> and returns its index (\<open>None\<close> is the \<^verbatim>\<open>-1\<close> of the source); an item met before
  that and ending after \<open>d\<close> has its end set to \<open>d\<close>.
\<close>

function force_scan :: "duration \<Rightarrow> nat \<Rightarrow> Item list \<Rightarrow> Item list \<times> nat option" where
  "force_scan d index xs =
     (if index < length xs then
        (if StartAt (xs ! index) \<ge> d then (xs, Some index)
         else if EndAt (xs ! index) > d
           then force_scan d (index + 1) (xs[index := (xs ! index)\<lparr>EndAt := d\<rparr>])
           else force_scan d (index + 1) xs)
      else (xs, None))"
  by pat_completeness auto
termination
  by (relation "measure (\<lambda>(d, index, xs). length xs - index)") auto

declare force_scan.simps [simp del]

text \<open>The item that \<^verbatim>\<open>ForceDuration\<close> appends: one line with the text \<^verbatim>\<open>...\<close>.\<close>

definition dummy_item :: "duration \<Rightarrow> Item" where
  "dummy_item d =
     \<lparr>Comments = [], EndAt = d, InlineStyle = None,
      Lines = [\<lparr>Line_Items = [\<lparr>LineItem_InlineStyle = None, LineItem_Style = None,
                               Text = ''...''\<rparr>],
               VoiceName = []\<rparr>],
      Region = None, StartAt = d - Millisecond, Style = None\<rparr>"

definition ForceDuration :: "duration \<Rightarrow> Subtitles \<Rightarrow> Subtitles" where
  "ForceDuration d s =
     (if Duration s = d then s
      else
        let s1 =
          (if Duration s > d then
             (case force_scan d 0 (Items s) of
                (xs, None) \<Rightarrow> s\<lparr>Items := xs\<rparr>
              | (xs, Some lastIndex) \<Rightarrow> s\<lparr>Items := take lastIndex xs\<rparr>)
           else s)
        in if Duration s1 < d then s1\<lparr>Items := Items s1 @ [dummy_item d]\<rparr> else s1)"

text \<open>\<^verbatim>\<open>NewSubtitles\<close>, and an item that shows one text from \<open>a\<close> to \<open>b\<close>.\<close>

definition NewSubtitles :: Subtitles where
  "NewSubtitles = \<lparr>Items = [], Metadata = None, Regions = Map.empty, Styles = Map.empty\<rparr>"

definition text_item :: "duration \<Rightarrow> duration \<Rightarrow> string \<Rightarrow> Item" where
  "text_item a b t =
     \<lparr>Comments = [], EndAt = b, InlineStyle = None,
      Lines = [\<lparr>Line_Items = [\<lparr>LineItem_InlineStyle = None, LineItem_Style = None, Text = t\<rparr>],
               VoiceName = []\<rparr>],
      Region = None, StartAt = a, Style = None\<rparr>"

lemma force_scan_props:
  "force_scan d index xs = (ys, r) \<Longrightarrow>
     length ys = length xs
     \<and> (\<forall>j < index. ys ! j = xs ! j)
     \<and> (case r of
          None \<Rightarrow> \<forall>j. index \<le> j \<and> j < length xs \<longrightarrow> EndAt (ys ! j) \<le> d
        | Some k \<Rightarrow> index \<le> k \<and> k < length xs
            \<and> (\<forall>j. index \<le> j \<and> j < k \<longrightarrow> EndAt (ys ! j) \<le> d))"
proof (induction d index xs arbitrary: ys r rule: force_scan.induct)
  case (1 d index xs)
  show ?case
  proof (cases "index < length xs")
    case False
    with "1.prems" show ?thesis by (subst (asm) force_scan.simps) auto
  next
    case in_range: True
    show ?thesis
    proof (cases "StartAt (xs ! index) \<ge> d")
      case True
      with "1.prems" in_range show ?thesis by (subst (asm) force_scan.simps) auto
    next
      case before: False
      show ?thesis
      proof (cases "EndAt (xs ! index) > d")
        case True
        let ?xs' = "xs[index := (xs ! index)\<lparr>EndAt := d\<rparr>]"
        have run: "force_scan d (index + 1) ?xs' = (ys, r)"
          using "1.prems" in_range before True by (subst (asm) force_scan.simps) simp
        note ih = "1.IH"(1) [OF in_range before True run]
        from ih have len: "length ys = length xs" by simp
        from ih have same: "\<forall>j < index + 1. ys ! j = ?xs' ! j" by simp
        then have here: "EndAt (ys ! index) \<le> d" using in_range by simp
        from same have pre: "\<forall>j < index. ys ! j = xs ! j" by simp
        show ?thesis
        proof (cases r)
          case None
          with ih have "\<forall>j. index + 1 \<le> j \<and> j < length xs \<longrightarrow> EndAt (ys ! j) \<le> d" by simp
          with here have "\<forall>j. index \<le> j \<and> j < length xs \<longrightarrow> EndAt (ys ! j) \<le> d"
            by (metis Suc_eq_plus1 Suc_leI le_neq_implies_less)
          with len pre None show ?thesis by simp
        next
          case (Some k)
          with ih have k: "index + 1 \<le> k" "k < length xs"
            and rest: "\<forall>j. index + 1 \<le> j \<and> j < k \<longrightarrow> EndAt (ys ! j) \<le> d" by simp_all
          from rest here have "\<forall>j. index \<le> j \<and> j < k \<longrightarrow> EndAt (ys ! j) \<le> d"
            by (metis Suc_eq_plus1 Suc_leI le_neq_implies_less)
          with len pre Some k show ?thesis by simp
        qed
      next
        case False
        have run: "force_scan d (index + 1) xs = (ys, r)"
          using "1.prems" in_range before False by (subst (asm) force_scan.simps) simp
        note ih = "1.IH"(2) [OF in_range before False run]
        from ih have len: "length ys = length xs" by simp
        from ih have same: "\<forall>j < index + 1. ys ! j = xs ! j" by simp
        then have here: "EndAt (ys ! index) \<le> d" using False by simp
        from same have pre: "\<forall>j < index. ys ! j = xs ! j" by simp
        show ?thesis
        proof (cases r)
          case None
          with ih have "\<forall>j. index + 1 \<le> j \<and> j < length xs \<longrightarrow> EndAt (ys ! j) \<le> d" by simp
          with here have "\<forall>j. index \<le> j \<and> j < length xs \<longrightarrow> EndAt (ys ! j) \<le> d"
            by (metis Suc_eq_plus1 Suc_leI le_neq_implies_less)
          with len pre None show ?thesis by simp
        next
          case (Some k)
          with ih have k: "index + 1 \<le> k" "k < length xs"
            and rest: "\<forall>j. index + 1 \<le> j \<and> j < k \<longrightarrow> EndAt (ys ! j) \<le> d" by simp_all
          from rest here have "\<forall>j. index \<le> j \<and> j < k \<longrightarrow> EndAt (ys ! j) \<le> d"
            by (metis Suc_eq_plus1 Suc_leI le_neq_implies_less)
          with len pre Some k show ?thesis by simp
        qed
      qed
    qed
  qed
qed


lemma Duration_after_scan:
  assumes "0 \<le> d" and run: "force_scan d 0 xs = (ys, r)"
  shows "Duration (s\<lparr>Items := (case r of None \<Rightarrow> ys | Some k \<Rightarrow> take k ys)\<rparr>) \<le> d"
proof (cases r)
  case None
  from force_scan_props [OF run] None
  have len: "length ys = length xs" and le: "\<forall>j. j < length xs \<longrightarrow> EndAt (ys ! j) \<le> d"
    by simp_all
  show ?thesis
  proof (cases "ys = []")
    case True
    with None assms(1) show ?thesis by (simp add: Duration_def)
  next
    case False
    then have "length ys - 1 < length xs" using len by (cases ys) auto
    with le have "EndAt (ys ! (length ys - 1)) \<le> d" by blast
    with None False show ?thesis by (simp add: Duration_def)
  qed
next
  case (Some k)
  from force_scan_props [OF run] Some
  have len: "length ys = length xs" and k: "k < length xs"
    and le: "\<forall>j. j < k \<longrightarrow> EndAt (ys ! j) \<le> d"
    by simp_all
  show ?thesis
  proof (cases "k = 0")
    case True
    with Some assms(1) show ?thesis by (simp add: Duration_def)
  next
    case False
    have lt: "length (take k ys) = k" using k len by simp
    have "take k ys ! (k - 1) = ys ! (k - 1)" using False by simp
    moreover have "EndAt (ys ! (k - 1)) \<le> d" using le False by simp
    ultimately show ?thesis using Some False lt by (simp add: Duration_def)
  qed
qed

lemma Duration_append_dummy: "Duration (s\<lparr>Items := xs @ [dummy_item d]\<rparr>) = d"
  by (simp add: Duration_def dummy_item_def)

lemma ForceDuration_Duration:
  assumes "0 \<le> d"
  shows "Duration (ForceDuration d s) = d"
proof (cases "Duration s = d")
  case True
  then show ?thesis by (simp add: ForceDuration_def)
next
  case ne: False
  define s1 where "s1 =
     (if Duration s > d then
        (case force_scan d 0 (Items s) of
           (xs, None) \<Rightarrow> s\<lparr>Items := xs\<rparr>
         | (xs, Some lastIndex) \<Rightarrow> s\<lparr>Items := take lastIndex xs\<rparr>)
      else s)"
  have res: "ForceDuration d s = (if Duration s1 < d then s1\<lparr>Items := Items s1 @ [dummy_item d]\<rparr> else s1)"
    using ne by (simp add: ForceDuration_def s1_def Let_def)
  have "Duration s1 \<le> d"
  proof (cases "Duration s > d")
    case True
    obtain ys r where run: "force_scan d 0 (Items s) = (ys, r)"
      by (cases "force_scan d 0 (Items s)")
    have "s1 = s\<lparr>Items := (case r of None \<Rightarrow> ys | Some k \<Rightarrow> take k ys)\<rparr>"
      using True run by (simp add: s1_def split: option.splits)
    then show ?thesis using Duration_after_scan [OF assms run] by simp
  next
    case False
    then show ?thesis by (simp add: s1_def)
  qed
  then show ?thesis
    unfolding res by (simp add: Duration_append_dummy)
qed

text \<open>
  C4. For every target duration \<open>d > 0\<close> and every document whose items are ordered ascending
  by \<^verbatim>\<open>StartAt\<close>, the document has \<^verbatim>\<open>Duration() == d\<close> after \<^verbatim>\<open>ForceDuration(d)\<close>, and a second
  \<^verbatim>\<open>ForceDuration(d)\<close> changes nothing.
\<close>

theorem ForceDuration_sets_duration_idempotent:
  assumes "0 < d" and "sorted (map StartAt (Items s))"
  shows "Duration (ForceDuration d s) = d
    \<and> ForceDuration d (ForceDuration d s) = ForceDuration d s"
proof -
  have "Duration (ForceDuration d s) = d"
    using assms(1) by (intro ForceDuration_Duration) simp
  moreover from this have "ForceDuration d (ForceDuration d s) = ForceDuration d s"
    by (subst ForceDuration_def) simp
  ultimately show ?thesis by simp
qed


theorem ForceDuration_witness:
  "0 < 5 * Second
   \<and> sorted (map StartAt (Items (NewSubtitles\<lparr>Items := [text_item 0 (10 * Second) ''x'']\<rparr>)))
   \<and> Duration (ForceDuration (5 * Second) (NewSubtitles\<lparr>Items := [text_item 0 (10 * Second) ''x'']\<rparr>))
       = 5 * Second
   \<and> ForceDuration (5 * Second)
         (ForceDuration (5 * Second) (NewSubtitles\<lparr>Items := [text_item 0 (10 * Second) ''x'']\<rparr>))
       = ForceDuration (5 * Second) (NewSubtitles\<lparr>Items := [text_item 0 (10 * Second) ''x'']\<rparr>)
   \<and> Items (ForceDuration (5 * Second) (NewSubtitles\<lparr>Items := [text_item 0 (10 * Second) ''x'']\<rparr>))
       = [text_item 0 (5 * Second) ''x'']
   \<and> Items (ForceDuration (15 * Second) (NewSubtitles\<lparr>Items := [text_item 0 (10 * Second) ''x'']\<rparr>))
       = [text_item 0 (10 * Second) ''x'', text_item (15 * Second - Millisecond) (15 * Second) ''...'']"
proof -
  let ?doc = "NewSubtitles\<lparr>Items := [text_item 0 (10 * Second) ''x'']\<rparr>"
  have pos: "0 < 5 * Second" by (simp add: Second_def Millisecond_def)
  have ord: "sorted (map StartAt (Items ?doc))" by simp
  have cut: "Items (ForceDuration (5 * Second) ?doc) = [text_item 0 (5 * Second) ''x'']"
    by (simp add: ForceDuration_def Duration_def force_scan.simps text_item_def
        Second_def Millisecond_def)
  have ext: "Items (ForceDuration (15 * Second) ?doc)
      = [text_item 0 (10 * Second) ''x'', text_item (15 * Second - Millisecond) (15 * Second) ''...'']"
    by (simp add: ForceDuration_def Duration_def text_item_def dummy_item_def
        Second_def Millisecond_def)
  from ForceDuration_sets_duration_idempotent [OF pos ord] pos ord cut ext
  show ?thesis by simp
qed

section \<open>Merge\<close>

text \<open>
  The two loops of \<^verbatim>\<open>Merge\<close> over the regions and over the styles of the other document are
  the same loop at two types; \<open>idf\<close> reads the \<^verbatim>\<open>ID\<close> field. Go visits the entries of a map in
  an order it does not specify, so the order is a parameter: \<open>ks\<close> lists the keys of \<open>src\<close> in
  the order of the visit. An entry is stored under its own \<^verbatim>\<open>ID\<close>, and only when the
  receiver's map \<open>m\<close> has nothing there.
\<close>

fun merge_entries ::
  "('v \<Rightarrow> string) \<Rightarrow> (string \<rightharpoonup> 'v) \<Rightarrow> string list \<Rightarrow> (string \<rightharpoonup> 'v) \<Rightarrow> (string \<rightharpoonup> 'v)"
where
  "merge_entries idf src [] m = m"
| "merge_entries idf src (k # ks) m =
     (case src k of
        None \<Rightarrow> merge_entries idf src ks m
      | Some v \<Rightarrow>
          merge_entries idf src ks (if m (idf v) = None then m(idf v \<mapsto> v) else m))"

text \<open>
  \<^verbatim>\<open>Subtitles.Merge\<close>: \<open>s\<close> is the receiver, \<open>i\<close> the other document, \<open>rks\<close> and \<open>sks\<close> the keys of
  \<open>i\<close>'s regions and styles in the order of the two \<^verbatim>\<open>range\<close> loops.
\<close>

definition Merge :: "string list \<Rightarrow> string list \<Rightarrow> Subtitles \<Rightarrow> Subtitles \<Rightarrow> Subtitles" where
  "Merge rks sks i s =
     (let s1 = Order (s\<lparr>Items := Items s @ Items i\<rparr>) in
      s1\<lparr>Regions := merge_entries Region_ID (Regions i) rks (Regions s1),
         Styles := merge_entries Style_ID (Styles i) sks (Styles s1)\<rparr>)"

text \<open>A map that stores every entry under the entry's own \<^verbatim>\<open>ID\<close>.\<close>

definition keyed_by :: "('v \<Rightarrow> string) \<Rightarrow> (string \<rightharpoonup> 'v) \<Rightarrow> bool" where
  "keyed_by idf m = (\<forall>k v. m k = Some v \<longrightarrow> idf v = k)"

lemma merge_entries_keeps:
  "m k = Some v \<Longrightarrow> merge_entries idf src ks m k = Some v"
proof (induction ks arbitrary: m)
  case Nil
  then show ?case by simp
next
  case (Cons a ks)
  show ?case
  proof (cases "src a")
    case None
    with Cons show ?thesis by simp
  next
    case (Some w)
    let ?m' = "if m (idf w) = None then m(idf w \<mapsto> w) else m"
    have "?m' k = Some v" using Cons.prems by auto
    then have "merge_entries idf src ks ?m' k = Some v" by (rule Cons.IH)
    with Some show ?thesis by simp
  qed
qed

lemma merge_entries_stores:
  "k \<in> set ks \<Longrightarrow> src k = Some v \<Longrightarrow> merge_entries idf src ks m (idf v) \<noteq> None"
proof (induction ks arbitrary: m)
  case Nil
  then show ?case by simp
next
  case (Cons a ks)
  show ?case
  proof (cases "a = k")
    case True
    let ?m' = "if m (idf v) = None then m(idf v \<mapsto> v) else m"
    have "?m' (idf v) \<noteq> None" by simp
    then obtain w where "?m' (idf v) = Some w" by blast
    then have "merge_entries idf src ks ?m' (idf v) = Some w"
      by (rule merge_entries_keeps)
    then show ?thesis using True Cons.prems(2) by simp
  next
    case False
    with Cons.prems have "k \<in> set ks" by simp
    from Cons.IH [OF this Cons.prems(2)] show ?thesis
      by (simp split: option.splits)
  qed
qed

lemma merge_entries_origin:
  "merge_entries idf src ks m k = Some v \<Longrightarrow>
     m k = Some v \<or> (\<exists>k' \<in> set ks. src k' = Some v \<and> idf v = k)"
proof (induction ks arbitrary: m)
  case Nil
  then show ?case by simp
next
  case (Cons a ks)
  show ?case
  proof (cases "src a")
    case None
    with Cons.prems have "merge_entries idf src ks m k = Some v" by simp
    from Cons.IH [OF this] show ?thesis by auto
  next
    case (Some w)
    let ?m' = "if m (idf w) = None then m(idf w \<mapsto> w) else m"
    from Cons.prems Some have "merge_entries idf src ks ?m' k = Some v" by simp
    from Cons.IH [OF this]
    have "?m' k = Some v \<or> (\<exists>k' \<in> set ks. src k' = Some v \<and> idf v = k)" .
    then show ?thesis
    proof
      assume "?m' k = Some v"
      then have "m k = Some v \<or> (w = v \<and> idf w = k)"
        by (auto split: if_splits)
      then show ?thesis using Some by auto
    next
      assume "\<exists>k' \<in> set ks. src k' = Some v \<and> idf v = k"
      then show ?thesis by auto
    qed
  qed
qed

lemma merge_entries_keyed:
  assumes keyed: "keyed_by idf src" and keys: "set ks = dom src" and absent: "m k = None"
  shows "merge_entries idf src ks m k = src k"
proof (cases "src k")
  case None
  show ?thesis
  proof (rule ccontr)
    assume "merge_entries idf src ks m k \<noteq> src k"
    then obtain v where "merge_entries idf src ks m k = Some v" using None by auto
    from merge_entries_origin [OF this] absent
    obtain k' where "src k' = Some v" "idf v = k" by auto
    with keyed have "k' = k" by (auto simp: keyed_by_def)
    with \<open>src k' = Some v\<close> None show False by simp
  qed
next
  case (Some v)
  then have "k \<in> set ks" using keys by auto
  then have "merge_entries idf src ks m (idf v) \<noteq> None"
    using Some by (rule merge_entries_stores)
  then obtain w where w: "merge_entries idf src ks m (idf v) = Some w" by auto
  have kv: "idf v = k" using keyed Some by (auto simp: keyed_by_def)
  from merge_entries_origin [OF w] absent kv
  obtain k' where "src k' = Some w" "idf w = k" by auto
  with keyed have "k' = k" by (auto simp: keyed_by_def)
  with \<open>src k' = Some w\<close> Some have "w = v" by simp
  with w kv Some show ?thesis by simp
qed


text \<open>
  Example documents. A style is named by its \<^verbatim>\<open>ID\<close> and carries a reference to its attributes;
  the references \<open>Some 0\<close>, \<open>Some 1\<close> and \<open>Some 2\<close> stand for three attribute sets (red, blue,
  green).
\<close>

definition style_of :: "string \<Rightarrow> nat \<Rightarrow> Style" where
  "style_of name attrs = \<lparr>Style_ID = name, Style_InlineStyle = Some attrs, Style_Style = None\<rparr>"

definition doc_A :: Subtitles where
  "doc_A = NewSubtitles\<lparr>Items := [text_item (2 * Second) (3 * Second) ''a''],
                        Styles := [''s1'' \<mapsto> style_of ''s1'' 0]\<rparr>"

definition doc_B :: Subtitles where
  "doc_B = NewSubtitles\<lparr>Items := [text_item 0 Second ''b''],
                        Styles := [''s1'' \<mapsto> style_of ''s1'' 1, ''s2'' \<mapsto> style_of ''s2'' 2]\<rparr>"

text \<open>
  C9. The maps of a document go from region-ID to Region and from style-ID to Style: every
  entry is stored under its own \<^verbatim>\<open>ID\<close>. \<^verbatim>\<open>Merge\<close> appends the other document's items to the
  receiver's and orders the combined sequence. In the maps of regions and of styles, every key
  the receiver has keeps the receiver's entry, and every key the receiver lacks gets the other
  document's entry: the result is the other document's map overridden by the receiver's. This
  holds for every order in which the two loops visit the other document's maps.
\<close>

theorem Merge_first_write_wins:
  assumes "set rks = dom (Regions i)" and "set sks = dom (Styles i)"
    and "keyed_by Region_ID (Regions i)" and "keyed_by Style_ID (Styles i)"
  shows "Items (Merge rks sks i s) = Order_by StartAt (Items s @ Items i)
    \<and> mset (Items (Merge rks sks i s)) = mset (Items s) + mset (Items i)
    \<and> sorted (map StartAt (Items (Merge rks sks i s)))
    \<and> (\<forall>k v. Regions s k = Some v \<longrightarrow> Regions (Merge rks sks i s) k = Some v)
    \<and> (\<forall>k v. Styles s k = Some v \<longrightarrow> Styles (Merge rks sks i s) k = Some v)
    \<and> (\<forall>k. Regions s k = None \<longrightarrow> Regions (Merge rks sks i s) k = Regions i k)
    \<and> (\<forall>k. Styles s k = None \<longrightarrow> Styles (Merge rks sks i s) k = Styles i k)
    \<and> Regions (Merge rks sks i s) = Regions i ++ Regions s
    \<and> Styles (Merge rks sks i s) = Styles i ++ Styles s
    \<and> Metadata (Merge rks sks i s) = Metadata s"
proof -
  let ?r = "Merge rks sks i s"
  have items: "Items ?r = Order_by StartAt (Items s @ Items i)"
    by (simp add: Merge_def Order_def Let_def)
  have regions: "Regions ?r = merge_entries Region_ID (Regions i) rks (Regions s)"
    by (simp add: Merge_def Order_def Let_def)
  have styles: "Styles ?r = merge_entries Style_ID (Styles i) sks (Styles s)"
    by (simp add: Merge_def Order_def Let_def)
  have meta: "Metadata ?r = Metadata s"
    by (simp add: Merge_def Order_def Let_def)
  have c2: "mset (Items ?r) = mset (Items s) + mset (Items i)"
    unfolding items by (simp add: Order_by_mset)
  have c3: "sorted (map StartAt (Items ?r))"
    unfolding items by (rule Order_by_sorted)
  have c4: "Regions ?r k = Some v" if "Regions s k = Some v" for k v
    unfolding regions using that by (rule merge_entries_keeps)
  have c5: "Styles ?r k = Some v" if "Styles s k = Some v" for k v
    unfolding styles using that by (rule merge_entries_keeps)
  have c6: "Regions ?r k = Regions i k" if "Regions s k = None" for k
    unfolding regions using assms(3,1) that by (rule merge_entries_keyed)
  have c7: "Styles ?r k = Styles i k" if "Styles s k = None" for k
    unfolding styles using assms(4,2) that by (rule merge_entries_keyed)
  have c8: "Regions ?r = Regions i ++ Regions s"
  proof (rule ext)
    fix k show "Regions ?r k = (Regions i ++ Regions s) k"
      by (cases "Regions s k") (simp_all add: c4 c6 map_add_def)
  qed
  have c9: "Styles ?r = Styles i ++ Styles s"
  proof (rule ext)
    fix k show "Styles ?r k = (Styles i ++ Styles s) k"
      by (cases "Styles s k") (simp_all add: c5 c7 map_add_def)
  qed
  from items c2 c3 c4 c5 c6 c7 c8 c9 meta show ?thesis by blast
qed

text \<open>
  The scenario of the specification: the receiver has style \<^verbatim>\<open>"s1"\<close> red, the other document
  has \<^verbatim>\<open>"s1"\<close> blue and \<^verbatim>\<open>"s2"\<close> green. After \<^verbatim>\<open>Merge\<close> the receiver has \<^verbatim>\<open>"s1"\<close> red still, and
  \<^verbatim>\<open>"s2"\<close> green; its items are those of both documents in start order.
\<close>

theorem Merge_witness:
  "set [] = dom (Regions doc_B) \<and> set [''s2'', ''s1''] = dom (Styles doc_B)
   \<and> keyed_by Region_ID (Regions doc_B) \<and> keyed_by Style_ID (Styles doc_B)
   \<and> Styles doc_A ''s1'' = Some (style_of ''s1'' 0)
   \<and> Styles doc_B ''s1'' = Some (style_of ''s1'' 1)
   \<and> Styles (Merge [] [''s2'', ''s1''] doc_B doc_A) ''s1'' = Some (style_of ''s1'' 0)
   \<and> Styles doc_A ''s2'' = None
   \<and> Styles (Merge [] [''s2'', ''s1''] doc_B doc_A) ''s2'' = Some (style_of ''s2'' 2)
   \<and> mset (Items (Merge [] [''s2'', ''s1''] doc_B doc_A))
       = mset (Items doc_A) + mset (Items doc_B)
   \<and> sorted (map StartAt (Items (Merge [] [''s2'', ''s1''] doc_B doc_A)))"
proof -
  have rk: "set [] = dom (Regions doc_B)"
    by (simp add: doc_B_def NewSubtitles_def)
  have sk: "set [''s2'', ''s1''] = dom (Styles doc_B)"
    by (auto simp: doc_B_def NewSubtitles_def)
  have keyed_r: "keyed_by Region_ID (Regions doc_B)"
    by (simp add: keyed_by_def doc_B_def NewSubtitles_def)
  have keyed: "keyed_by Style_ID (Styles doc_B)"
    by (auto simp: keyed_by_def doc_B_def NewSubtitles_def style_of_def split: if_splits)
  have a1: "Styles doc_A ''s1'' = Some (style_of ''s1'' 0)"
    and a2: "Styles doc_A ''s2'' = None"
    by (simp_all add: doc_A_def NewSubtitles_def)
  have b1: "Styles doc_B ''s1'' = Some (style_of ''s1'' 1)"
    and b2: "Styles doc_B ''s2'' = Some (style_of ''s2'' 2)"
    by (simp_all add: doc_B_def NewSubtitles_def)
  note mw = Merge_first_write_wins [OF rk sk keyed_r keyed, of doc_A]
  from mw a1 have r1: "Styles (Merge [] [''s2'', ''s1''] doc_B doc_A) ''s1'' = Some (style_of ''s1'' 0)"
    by blast
  from mw a2 b2
  have r2: "Styles (Merge [] [''s2'', ''s1''] doc_B doc_A) ''s2'' = Some (style_of ''s2'' 2)"
    by metis
  from mw have r3: "mset (Items (Merge [] [''s2'', ''s1''] doc_B doc_A))
       = mset (Items doc_A) + mset (Items doc_B)"
    and r4: "sorted (map StartAt (Items (Merge [] [''s2'', ''s1''] doc_B doc_A)))"
    by blast+
  from rk sk keyed_r keyed a1 a2 b1 r1 r2 r3 r4 show ?thesis by blast
qed

section \<open>Unfragment\<close>

text \<open>
  The inner loop of \<^verbatim>\<open>Unfragment\<close> for the item at position \<open>i\<close>, from position \<open>j\<close> on. An
  item at \<open>j\<close> with the same rendered text that starts where the item at \<open>i\<close> ends is merged:
  the item at \<open>i\<close> takes its end and position \<open>j\<close> is removed; \<^verbatim>\<open>j--\<close> and the loop's \<^verbatim>\<open>j++\<close> leave
  \<open>j\<close> where it is.
\<close>

function unfragment_inner :: "nat \<Rightarrow> nat \<Rightarrow> Item list \<Rightarrow> Item list" where
  "unfragment_inner i j xs =
     (if j < length xs then
        (if Item_String (xs ! i) = Item_String (xs ! j) \<and> EndAt (xs ! i) = StartAt (xs ! j)
         then
           (let xs1 = xs[i := (xs ! i)\<lparr>EndAt := EndAt (xs ! j)\<rparr>];
                xs2 = take j xs1 @ drop (j + 1) xs1
            in unfragment_inner i j xs2)
         else unfragment_inner i (j + 1) xs)
      else xs)"
  by pat_completeness auto
termination
  by (relation "measure (\<lambda>(i, j, xs). length xs - j)") auto

declare unfragment_inner.simps [simp del]

lemma unfragment_inner_length: "length (unfragment_inner i j xs) \<le> length xs"
proof (induction i j xs rule: unfragment_inner.induct)
  case (1 i j xs)
  show ?case
  proof (cases "j < length xs")
    case False
    then show ?thesis by (subst unfragment_inner.simps) simp
  next
    case in_range: True
    show ?thesis
    proof (cases "Item_String (xs ! i) = Item_String (xs ! j) \<and> EndAt (xs ! i) = StartAt (xs ! j)")
      case True
      let ?xs1 = "xs[i := (xs ! i)\<lparr>EndAt := EndAt (xs ! j)\<rparr>]"
      let ?xs2 = "take j ?xs1 @ drop (j + 1) ?xs1"
      have "length (unfragment_inner i j ?xs2) \<le> length ?xs2"
        using "1.IH"(1) [OF in_range True refl refl] .
      moreover have "length ?xs2 \<le> length xs" using in_range by simp
      moreover have "unfragment_inner i j xs = unfragment_inner i j ?xs2"
        using in_range True by (subst unfragment_inner.simps) (simp add: Let_def)
      ultimately show ?thesis by simp
    next
      case False
      have "unfragment_inner i j xs = unfragment_inner i (j + 1) xs"
        using in_range False by (subst unfragment_inner.simps) auto
      then show ?thesis using "1.IH"(2) [OF in_range False] by simp
    qed
  qed
qed

text \<open>The outer loop: \<^verbatim>\<open>for i := 0; i < len(s.Items)-1; i++\<close>.\<close>

function unfragment_outer :: "nat \<Rightarrow> Item list \<Rightarrow> Item list" where
  "unfragment_outer i xs =
     (if i + 1 < length xs then unfragment_outer (i + 1) (unfragment_inner i (i + 1) xs)
      else xs)"
  by pat_completeness auto
termination
  apply (relation "measure (\<lambda>(i, xs). length xs - i)")
   apply simp
  subgoal for i xs
    using unfragment_inner_length [of i "i + 1" xs] by simp
  done

declare unfragment_outer.simps [simp del]

definition Unfragment :: "Subtitles \<Rightarrow> Subtitles" where
  "Unfragment s =
     (if length (Items s) \<le> 1 then s
      else Order (s\<lparr>Items := unfragment_outer 0 (Items s)\<rparr>))"

text \<open>The condition of the merge, and a run of items each of which the next one continues.\<close>

definition mergeable :: "Item \<Rightarrow> Item \<Rightarrow> bool" where
  "mergeable x y = (Item_String x = Item_String y \<and> EndAt x = StartAt y)"

fun chain :: "Item list \<Rightarrow> bool" where
  "chain [] = True"
| "chain [x] = True"
| "chain (x # y # ys) = (mergeable x y \<and> chain (y # ys))"

text \<open>What one run of the inner loop does to the item \<open>x\<close> and the items after it.\<close>

fun absorb :: "Item \<Rightarrow> Item list \<Rightarrow> Item \<times> Item list" where
  "absorb x [] = (x, [])"
| "absorb x (y # ys) =
     (if mergeable x y then absorb (x\<lparr>EndAt := EndAt y\<rparr>) ys
      else (case absorb x ys of (x', r) \<Rightarrow> (x', y # r)))"


lemma Item_String_EndAt [simp]: "Item_String (x\<lparr>EndAt := e\<rparr>) = Item_String x"
  by (simp add: Item_String_def)

lemma unfragment_inner_absorb:
  "i < j \<Longrightarrow> j \<le> length xs \<Longrightarrow>
   unfragment_inner i j xs =
     (case absorb (xs ! i) (drop j xs) of (x', r) \<Rightarrow> (take j xs)[i := x'] @ r)"
proof (induction i j xs rule: unfragment_inner.induct)
  case (1 i j xs)
  show ?case
  proof (cases "j < length xs")
    case False
    with "1.prems" have "j = length xs" by simp
    then show ?thesis by (subst unfragment_inner.simps) simp
  next
    case in_range: True
    have dr: "drop j xs = xs ! j # drop (j + 1) xs"
      using in_range by (simp add: Cons_nth_drop_Suc)
    show ?thesis
    proof (cases "Item_String (xs ! i) = Item_String (xs ! j) \<and> EndAt (xs ! i) = StartAt (xs ! j)")
      case True
      let ?x1 = "(xs ! i)\<lparr>EndAt := EndAt (xs ! j)\<rparr>"
      let ?xs1 = "xs[i := ?x1]"
      let ?xs2 = "take j ?xs1 @ drop (j + 1) ?xs1"
      have step: "unfragment_inner i j xs = unfragment_inner i j ?xs2"
        using in_range True by (subst unfragment_inner.simps) (simp add: Let_def)
      have len2: "j \<le> length ?xs2" using in_range by simp
      have ih: "unfragment_inner i j ?xs2 =
          (case absorb (?xs2 ! i) (drop j ?xs2) of (x', r) \<Rightarrow> (take j ?xs2)[i := x'] @ r)"
        using "1.IH"(1) [OF in_range True refl refl "1.prems"(1) len2] .
      have at_i: "?xs2 ! i = ?x1"
        using "1.prems"(1) in_range by (simp add: nth_append)
      have dr2: "drop j ?xs2 = drop (j + 1) xs"
        using "1.prems"(1) in_range by simp
      have tk2: "take j ?xs2 = (take j xs)[i := ?x1]"
        using "1.prems"(1) in_range by (simp add: take_update_swap)
      have ab: "absorb (xs ! i) (drop j xs) = absorb ?x1 (drop (j + 1) xs)"
        using True by (simp add: dr mergeable_def)
      show ?thesis
        unfolding step ih at_i dr2 tk2 ab by (simp split: prod.splits)
    next
      case False
      have step: "unfragment_inner i j xs = unfragment_inner i (j + 1) xs"
        using in_range False by (subst unfragment_inner.simps) auto
      have ih: "unfragment_inner i (j + 1) xs =
          (case absorb (xs ! i) (drop (j + 1) xs) of (x', r) \<Rightarrow> (take (j + 1) xs)[i := x'] @ r)"
        using "1.IH"(2) [OF in_range False] "1.prems"(1) in_range by simp
      obtain x' r where a: "absorb (xs ! i) (drop (j + 1) xs) = (x', r)"
        by (cases "absorb (xs ! i) (drop (j + 1) xs)")
      have "\<not> mergeable (xs ! i) (xs ! j)"
        using False by (simp add: mergeable_def)
      then have ab: "absorb (xs ! i) (drop j xs) = (x', xs ! j # r)"
        using a by (simp add: dr)
      have tk: "take (j + 1) xs = take j xs @ [xs ! j]"
        using in_range by (simp add: take_Suc_conv_app_nth)
      have "(take j xs @ [xs ! j])[i := x'] = (take j xs)[i := x'] @ [xs ! j]"
        using "1.prems"(1) in_range by (simp add: list_update_append)
      then have "(take (j + 1) xs)[i := x'] @ r = (take j xs)[i := x'] @ xs ! j # r"
        unfolding tk by simp
      then show ?thesis
        unfolding step ih a ab by simp
    qed
  qed
qed

lemma absorb_length: "absorb x ys = (x', r) \<Longrightarrow> length r \<le> length ys"
proof (induction ys arbitrary: x x' r)
  case Nil
  then show ?case by simp
next
  case (Cons y ys)
  show ?case
  proof (cases "mergeable x y")
    case True
    with Cons.prems have "absorb (x\<lparr>EndAt := EndAt y\<rparr>) ys = (x', r)" by simp
    from Cons.IH [OF this] show ?thesis by simp
  next
    case False
    obtain x1 r1 where a: "absorb x ys = (x1, r1)" by (cases "absorb x ys")
    with False Cons.prems have "r = y # r1" by simp
    with Cons.IH [OF a] show ?thesis by simp
  qed
qed

text \<open>
  What \<^verbatim>\<open>Unfragment\<close> does before it orders, said without positions: the first Item goes
  through the Items after it, from the nearest to the farthest, and takes in each one whose
  rendered text is its own and which starts where it ends by then; the Items it has not
  taken in are dealt with in the same way, the first of them first.
\<close>

function unfragmented :: "Item list \<Rightarrow> Item list" where
  "unfragmented [] = []"
| "unfragmented (x # ys) = (case absorb x ys of (x', r) \<Rightarrow> x' # unfragmented r)"
  by pat_completeness auto
termination
  apply (relation "measure length")
   apply simp
  subgoal for x ys x' r
    using absorb_length [of x ys x' r] by simp
  done

declare unfragmented.simps [simp del]

lemma unfragmented_Nil: "unfragmented [] = []"
  by (simp add: unfragmented.simps)

lemma unfragmented_single: "unfragmented [x] = [x]"
  by (simp add: unfragmented.simps)

lemma unfragmented_Cons:
  "absorb x ys = (x', r) \<Longrightarrow> unfragmented (x # ys) = x' # unfragmented r"
  by (simp add: unfragmented.simps)

text \<open>The outer loop, once it stands at position \<open>i\<close>, leaves the Items before \<open>i\<close> as they are.\<close>

lemma unfragment_outer_unfragmented:
  "i \<le> length xs \<Longrightarrow> unfragment_outer i xs = take i xs @ unfragmented (drop i xs)"
proof (induction i xs rule: unfragment_outer.induct)
  case (1 i xs)
  show ?case
  proof (cases "i + 1 < length xs")
    case True
    let ?ys = "unfragment_inner i (Suc i) xs"
    obtain x' r where a: "absorb (xs ! i) (drop (Suc i) xs) = (x', r)"
      by (cases "absorb (xs ! i) (drop (Suc i) xs)")
    have tk: "take (Suc i) xs = take i xs @ [xs ! i]"
      using True by (simp add: take_Suc_conv_app_nth)
    have upd: "(take i xs @ [xs ! i])[i := x'] = take i xs @ [x']"
      using True by (simp add: list_update_append)
    have inner: "?ys = take i xs @ x' # r"
      using unfragment_inner_absorb [of i "Suc i" xs] True by (simp add: a tk upd)
    have len: "length (take i xs) = i" using True by simp
    have ih: "Suc i \<le> length ?ys \<Longrightarrow>
        unfragment_outer (Suc i) ?ys = take (Suc i) ?ys @ unfragmented (drop (Suc i) ?ys)"
      using "1.IH" [OF True] by simp
    have "Suc i \<le> length ?ys" unfolding inner using len by simp
    then have "unfragment_outer (Suc i) ?ys = take (Suc i) ?ys @ unfragmented (drop (Suc i) ?ys)"
      by (rule ih)
    moreover have "take (Suc i) ?ys = take i xs @ [x']" unfolding inner using len by simp
    moreover have "drop (Suc i) ?ys = r" unfolding inner using len by simp
    ultimately have rec: "unfragment_outer (Suc i) ?ys = take i xs @ x' # unfragmented r"
      by simp
    have "drop i xs = xs ! i # drop (Suc i) xs"
      using True by (simp add: Cons_nth_drop_Suc)
    then have "unfragmented (drop i xs) = x' # unfragmented r"
      using a by (simp add: unfragmented_Cons)
    moreover have "unfragment_outer i xs = unfragment_outer (Suc i) ?ys"
      using True by (subst unfragment_outer.simps) simp
    ultimately show ?thesis using rec by simp
  next
    case False
    have out: "unfragment_outer i xs = xs"
      using False by (subst unfragment_outer.simps) simp
    have "length (drop i xs) \<le> 1" using False by simp
    then have "unfragmented (drop i xs) = drop i xs"
      by (cases "drop i xs" rule: list.exhaust)
         (simp_all add: unfragmented_Nil unfragmented_single)
    then show ?thesis using out by simp
  qed
qed

lemma Unfragment_unfragmented:
  "Unfragment s = s\<lparr>Items := sort_key StartAt (unfragmented (Items s))\<rparr>"
proof (cases "length (Items s) \<le> 1")
  case True
  then have "unfragmented (Items s) = Items s"
    by (cases "Items s" rule: list.exhaust)
       (simp_all add: unfragmented_Nil unfragmented_single)
  moreover have "sort_key StartAt (Items s) = Items s"
    using True by (cases "Items s" rule: list.exhaust) simp_all
  ultimately show ?thesis using True by (simp add: Unfragment_def)
next
  case False
  have "unfragment_outer 0 (Items s) = unfragmented (Items s)"
    using unfragment_outer_unfragmented [of 0 "Items s"] by simp
  then show ?thesis
    using False by (simp add: Unfragment_def Order_def Order_by_sort_key)
qed

lemma absorb_chain:
  "chain (x # ys) \<Longrightarrow> absorb x ys = (x\<lparr>EndAt := EndAt (last (x # ys))\<rparr>, [])"
proof (induction ys arbitrary: x)
  case Nil
  then show ?case by simp
next
  case (Cons y ys)
  then have m: "mergeable x y" and rest: "chain (y # ys)" by simp_all
  let ?x1 = "x\<lparr>EndAt := EndAt y\<rparr>"
  have "chain (?x1 # ys)"
  proof (cases ys)
    case Nil
    then show ?thesis by simp
  next
    case (Cons z zs)
    with rest have "mergeable y z" "chain (z # zs)" by simp_all
    with m Cons show ?thesis by (simp add: mergeable_def)
  qed
  from Cons.IH [OF this] have "absorb ?x1 ys = (?x1\<lparr>EndAt := EndAt (last (?x1 # ys))\<rparr>, [])" .
  moreover have "?x1\<lparr>EndAt := EndAt (last (?x1 # ys))\<rparr> = x\<lparr>EndAt := EndAt (last (x # y # ys))\<rparr>"
    by (cases ys) simp_all
  ultimately show ?case using m by simp
qed

lemma absorb_skip:
  assumes "\<forall>b \<in> set bs. \<not> mergeable x b"
  shows "absorb x (bs @ cs) = (case absorb x cs of (x', r) \<Rightarrow> (x', bs @ r))"
  using assms by (induction bs) (auto split: prod.splits)

lemma absorb_none:
  "\<forall>b \<in> set bs. \<not> mergeable x b \<Longrightarrow> absorb x bs = (x, bs)"
  using absorb_skip [of bs x "[]"] by simp


lemma unfragment_outer_first:
  "xs \<noteq> [] \<Longrightarrow>
   unfragment_outer 0 xs = unfragment_outer (Suc 0) (unfragment_inner 0 (Suc 0) xs)"
proof (cases "1 < length xs")
  case True
  then show ?thesis by (subst unfragment_outer.simps) simp
next
  case False
  assume "xs \<noteq> []"
  with False have one: "length xs = 1" by (cases xs) auto
  then have "unfragment_inner 0 (Suc 0) xs = xs" by (subst unfragment_inner.simps) simp
  moreover have "unfragment_outer 0 xs = xs" using one by (subst unfragment_outer.simps) simp
  moreover have "unfragment_outer (Suc 0) xs = xs"
    using one by (subst unfragment_outer.simps) simp
  ultimately show ?thesis by simp
qed

lemma unfragment_inner_first:
  "unfragment_inner 0 (Suc 0) (x # ys) = (case absorb x ys of (x', r) \<Rightarrow> x' # r)"
  using unfragment_inner_absorb [of 0 "Suc 0" "x # ys"] by (simp split: prod.splits)

lemma Unfragment_chain:
  assumes "chain (x # xs)"
  shows "Items (Unfragment (s\<lparr>Items := x # xs\<rparr>)) = [x\<lparr>EndAt := EndAt (last (x # xs))\<rparr>]"
proof (cases xs)
  case Nil
  then show ?thesis by (simp add: Unfragment_def)
next
  case (Cons y ys)
  let ?x' = "x\<lparr>EndAt := EndAt (last (x # xs))\<rparr>"
  have "unfragment_inner 0 (Suc 0) (x # xs) = [?x']"
    unfolding unfragment_inner_first absorb_chain [OF assms] by simp
  then have "unfragment_outer 0 (x # xs) = unfragment_outer (Suc 0) [?x']"
    by (simp add: unfragment_outer_first)
  also have "\<dots> = [?x']" by (subst unfragment_outer.simps) simp
  finally show ?thesis
    using Cons by (simp add: Unfragment_def Order_def Order_by_def)
qed

lemma Unfragment_at_a_distance:
  assumes m: "mergeable x y"
    and skip: "\<forall>b \<in> set bs. \<not> mergeable x b \<and> \<not> mergeable (x\<lparr>EndAt := EndAt y\<rparr>) b"
  shows "Items (Unfragment (s\<lparr>Items := x # bs @ y # cs\<rparr>))
       = Items (Unfragment (s\<lparr>Items := x\<lparr>EndAt := EndAt y\<rparr> # bs @ cs\<rparr>))"
proof -
  let ?x1 = "x\<lparr>EndAt := EndAt y\<rparr>"
  obtain x' r where a: "absorb ?x1 cs = (x', r)" by (cases "absorb ?x1 cs")
  have "absorb x (bs @ y # cs) = (x', bs @ r)"
    using skip m a by (simp add: absorb_skip)
  then have l: "unfragment_inner 0 (Suc 0) (x # bs @ y # cs) = x' # bs @ r"
    by (simp add: unfragment_inner_first)
  have "absorb ?x1 (bs @ cs) = (x', bs @ r)"
    using skip a by (simp add: absorb_skip)
  then have r: "unfragment_inner 0 (Suc 0) (?x1 # bs @ cs) = x' # bs @ r"
    by (simp add: unfragment_inner_first)
  have outer: "unfragment_outer 0 (x # bs @ y # cs) = unfragment_outer 0 (?x1 # bs @ cs)"
    by (simp add: unfragment_outer_first l r)
  show ?thesis
  proof (cases "bs = [] \<and> cs = []")
    case True
    have "unfragment_outer 0 [?x1] = [?x1]" by (subst unfragment_outer.simps) simp
    with outer True show ?thesis
      by (simp add: Unfragment_def Order_def Order_by_def)
  next
    case False
    with outer show ?thesis by (auto simp add: Unfragment_def Order_def)
  qed
qed

lemma unfragment_inner_none:
  assumes "i < length xs" and "\<forall>j. i < j \<and> j < length xs \<longrightarrow> \<not> mergeable (xs ! i) (xs ! j)"
  shows "unfragment_inner i (i + 1) xs = xs"
proof -
  have "\<forall>b \<in> set (drop (i + 1) xs). \<not> mergeable (xs ! i) b"
  proof
    fix b assume "b \<in> set (drop (i + 1) xs)"
    then obtain k where k: "k < length (drop (i + 1) xs)" "b = drop (i + 1) xs ! k"
      by (auto simp: in_set_conv_nth)
    then have "b = xs ! (i + 1 + k)" "i + 1 + k < length xs" by simp_all
    with assms(2) show "\<not> mergeable (xs ! i) b" by simp
  qed
  then have "absorb (xs ! i) (drop (i + 1) xs) = (xs ! i, drop (i + 1) xs)"
    by (rule absorb_none)
  moreover have "(take (i + 1) xs)[i := xs ! i] = take (i + 1) xs"
    by (metis list_update_id take_update_swap)
  then have "(take (i + 1) xs)[i := xs ! i] @ drop (i + 1) xs = xs"
    by simp
  ultimately show ?thesis
    using unfragment_inner_absorb [of i "i + 1" xs] assms(1) by simp
qed

lemma unfragment_outer_none:
  assumes "\<forall>i j. i < j \<and> j < length xs \<longrightarrow> \<not> mergeable (xs ! i) (xs ! j)"
  shows "unfragment_outer i xs = xs"
proof (induction "length xs - i" arbitrary: i)
  case 0
  then show ?case by (subst unfragment_outer.simps) simp
next
  case (Suc n)
  show ?case
  proof (cases "i + 1 < length xs")
    case True
    then have "unfragment_inner i (i + 1) xs = xs"
      using assms by (intro unfragment_inner_none) simp_all
    moreover have "unfragment_outer (i + 1) xs = xs"
      using Suc.hyps(2) by (intro Suc.hyps(1)) simp
    ultimately show ?thesis using True by (subst unfragment_outer.simps) simp
  next
    case False
    then show ?thesis by (subst unfragment_outer.simps) simp
  qed
qed


text \<open>
  C7, as stated, fails: the pairs that \<^verbatim>\<open>Unfragment\<close> merges are not exactly those at
  consecutive positions. The inner loop compares the item at \<open>i\<close> with every later item, so
  the first and the third item below are merged across the second; and after a merge the scan
  goes on from where it stands, so in the second document the item 4s-6s, passed over before
  the first item grew to end at 4s, stays apart although it now continues its neighbour.
\<close>

theorem Unfragment_not_only_consecutive:
  "Items (Unfragment (NewSubtitles\<lparr>Items :=
      [text_item 0 (2 * Second) ''a'', text_item Second (6 * Second) ''b'',
       text_item (2 * Second) (4 * Second) ''a'']\<rparr>))
     = [text_item 0 (4 * Second) ''a'', text_item Second (6 * Second) ''b'']
   \<and> Items (Unfragment (NewSubtitles\<lparr>Items :=
      [text_item 0 (2 * Second) ''a'', text_item (4 * Second) (6 * Second) ''a'',
       text_item (2 * Second) (4 * Second) ''a'']\<rparr>))
     = [text_item 0 (4 * Second) ''a'', text_item (4 * Second) (6 * Second) ''a'']
   \<and> mergeable (text_item 0 (4 * Second) ''a'') (text_item (4 * Second) (6 * Second) ''a'')"
  by (simp add: Unfragment_def unfragment_outer.simps unfragment_inner.simps
      Order_def Order_by_def order_loop.simps order_pass.simps
      NewSubtitles_def text_item_def Item_String_def Line_String_def mergeable_def
      Second_def Millisecond_def)

text \<open>
  C7, amended. \<^verbatim>\<open>Unfragment\<close> takes the Items in the order of the sequence. Each Item in turn
  goes through all the Items after it, the nearest first, whether they stand at the next
  position or further on, and takes in every Item whose rendered text equals its own and
  whose start offset equals its own end offset as it is by then: its end offset becomes the
  end offset of the Item taken in, which is removed. An Item it has passed over it does not
  look at again. Then the sequence is ordered. So a document that is one run of Items, each
  continued by the next, becomes one Item, and a document in which no Item is continued by
  any later Item is only ordered.
\<close>

theorem Unfragment_merges:
  "Unfragment s = s\<lparr>Items := sort_key StartAt (unfragmented (Items s))\<rparr>
   \<and> sorted (map StartAt (Items (Unfragment s)))
   \<and> (chain (x # xs) \<longrightarrow>
        Items (Unfragment (s\<lparr>Items := x # xs\<rparr>)) = [x\<lparr>EndAt := EndAt (last (x # xs))\<rparr>])
   \<and> ((\<forall>i j. i < j \<and> j < length (Items s) \<longrightarrow> \<not> mergeable (Items s ! i) (Items s ! j)) \<longrightarrow>
        Items (Unfragment s) = Items (Order s))"
proof -
  have whole: "Unfragment s = s\<lparr>Items := sort_key StartAt (unfragmented (Items s))\<rparr>"
    by (rule Unfragment_unfragmented)
  have "Items (Unfragment s) = sort_key StartAt (unfragmented (Items s))"
    by (subst whole) simp
  then have ordered: "sorted (map StartAt (Items (Unfragment s)))"
    by (simp only: sorted_sort_key)
  have none: "Items (Unfragment s) = Items (Order s)"
    if "\<forall>i j. i < j \<and> j < length (Items s) \<longrightarrow> \<not> mergeable (Items s ! i) (Items s ! j)"
  proof (cases "length (Items s) \<le> 1")
    case True
    then show ?thesis by (simp add: Unfragment_def Order_def Order_by_def)
  next
    case False
    then show ?thesis
      using unfragment_outer_none [OF that, of 0] by (simp add: Unfragment_def Order_def)
  qed
  from whole ordered none Unfragment_chain [where x = x and xs = xs and s = s]
  show ?thesis by blast
qed

text \<open>
  The scenario of the specification, \<open>a\<close> from 0s to 2s and \<open>a\<close> from 2s to 4s, which become
  \<open>a\<close> from 0s to 4s; and a document of two Items of different texts, which is only ordered.
\<close>

theorem Unfragment_witness:
  "chain [text_item 0 (2 * Second) ''a'', text_item (2 * Second) (4 * Second) ''a'']
   \<and> Items (Unfragment (NewSubtitles\<lparr>Items :=
        [text_item 0 (2 * Second) ''a'', text_item (2 * Second) (4 * Second) ''a'']\<rparr>))
      = [text_item 0 (4 * Second) ''a'']
   \<and> \<not> mergeable (text_item (2 * Second) (4 * Second) ''a'') (text_item Second (6 * Second) ''b'')
   \<and> Items (Unfragment (NewSubtitles\<lparr>Items :=
        [text_item (2 * Second) (4 * Second) ''a'', text_item Second (6 * Second) ''b'']\<rparr>))
      = [text_item Second (6 * Second) ''b'', text_item (2 * Second) (4 * Second) ''a'']"
proof -
  let ?a02 = "text_item 0 (2 * Second) ''a''" and ?a24 = "text_item (2 * Second) (4 * Second) ''a''"
    and ?a04 = "text_item 0 (4 * Second) ''a''" and ?b16 = "text_item Second (6 * Second) ''b''"
  have m: "mergeable ?a02 ?a24"
    by (simp add: mergeable_def text_item_def Item_String_def Line_String_def)
  have n: "\<not> mergeable ?a24 ?b16"
    by (simp add: mergeable_def text_item_def Item_String_def Line_String_def)
  have ch: "chain [?a02, ?a24]" using m by simp
  have lst: "?a02\<lparr>EndAt := EndAt (last [?a02, ?a24])\<rparr> = ?a04" by (simp add: text_item_def)
  from Unfragment_merges [where s = NewSubtitles and x = ?a02 and xs = "[?a24]"] ch
  have r1: "Items (Unfragment (NewSubtitles\<lparr>Items := [?a02, ?a24]\<rparr>)) = [?a04]"
    unfolding lst by blast
  have pairs: "\<forall>i j. i < j \<and> j < length (Items (NewSubtitles\<lparr>Items := [?a24, ?b16]\<rparr>)) \<longrightarrow>
      \<not> mergeable (Items (NewSubtitles\<lparr>Items := [?a24, ?b16]\<rparr>) ! i)
          (Items (NewSubtitles\<lparr>Items := [?a24, ?b16]\<rparr>) ! j)"
    using n by (auto simp: less_Suc_eq)
  from Unfragment_merges [where s = "NewSubtitles\<lparr>Items := [?a24, ?b16]\<rparr>" and x = ?a02
      and xs = "[]"] pairs
  have "Items (Unfragment (NewSubtitles\<lparr>Items := [?a24, ?b16]\<rparr>))
      = Items (Order (NewSubtitles\<lparr>Items := [?a24, ?b16]\<rparr>))"
    by blast
  also have "\<dots> = [?b16, ?a24]"
    by (simp add: Order_def Order_by_sort_key text_item_def Second_def Millisecond_def)
  finally have r3: "Items (Unfragment (NewSubtitles\<lparr>Items := [?a24, ?b16]\<rparr>)) = [?b16, ?a24]" .
  from ch r1 n r3 show ?thesis by simp
qed

section \<open>Go standard library: strings, division, floating point\<close>

text \<open>
  \<^verbatim>\<open>strings.Split\<close> for a separator that is not empty: the string is cut at every occurrence of
  the separator, found from the left, occurrences not overlapping. \<open>acc\<close> holds the bytes read
  since the last cut.
\<close>

function split_from :: "string \<Rightarrow> string \<Rightarrow> string \<Rightarrow> string list" where
  "split_from sep acc s =
     (if s = [] then [acc]
      else if sep \<noteq> [] \<and> take (length sep) s = sep
        then acc # split_from sep [] (drop (length sep) s)
      else split_from sep (acc @ [hd s]) (tl s))"
  by pat_completeness auto
termination
  by (relation "measure (\<lambda>(sep, acc, s). length s)") auto

declare split_from.simps [simp del]

text \<open>
  With the empty separator \<^verbatim>\<open>strings.Split\<close> cuts after every UTF-8 sequence; the model cuts
  after every byte, which is the same for ASCII text.
\<close>

definition Split :: "string \<Rightarrow> string \<Rightarrow> string list" where
  "Split s sep = (if sep = [] then map (\<lambda>c. [c]) s else split_from sep [] s)"

text \<open>
  \<^verbatim>\<open>strings.TrimSpace\<close> removes leading and trailing white space as Unicode defines it. These
  are the UTF-8 encodings of the code points for which \<^verbatim>\<open>unicode.IsSpace\<close> holds: tab, line
  feed, vertical tab, form feed, carriage return, space, U+0085, U+00A0, U+1680,
  U+2000 to U+200A, U+2028, U+2029, U+202F, U+205F and U+3000.
\<close>

definition space_runes :: "string list" where
  "space_runes =
     [[CHR 0x09], [CHR 0x0A], [CHR 0x0B], [CHR 0x0C], [CHR 0x0D], [CHR 0x20],
      [CHR 0xC2, CHR 0x85], [CHR 0xC2, CHR 0xA0], [CHR 0xE1, CHR 0x9A, CHR 0x80],
      [CHR 0xE2, CHR 0x80, CHR 0x80], [CHR 0xE2, CHR 0x80, CHR 0x81],
      [CHR 0xE2, CHR 0x80, CHR 0x82], [CHR 0xE2, CHR 0x80, CHR 0x83],
      [CHR 0xE2, CHR 0x80, CHR 0x84], [CHR 0xE2, CHR 0x80, CHR 0x85],
      [CHR 0xE2, CHR 0x80, CHR 0x86], [CHR 0xE2, CHR 0x80, CHR 0x87],
      [CHR 0xE2, CHR 0x80, CHR 0x88], [CHR 0xE2, CHR 0x80, CHR 0x89],
      [CHR 0xE2, CHR 0x80, CHR 0x8A], [CHR 0xE2, CHR 0x80, CHR 0xA8],
      [CHR 0xE2, CHR 0x80, CHR 0xA9], [CHR 0xE2, CHR 0x80, CHR 0xAF],
      [CHR 0xE2, CHR 0x81, CHR 0x9F], [CHR 0xE3, CHR 0x80, CHR 0x80]]"

function trim_left :: "string \<Rightarrow> string" where
  "trim_left s =
     (case find (\<lambda>p. take (length p) s = p) space_runes of
        None \<Rightarrow> s
      | Some p \<Rightarrow> if p = [] then s else trim_left (drop (length p) s))"
  by pat_completeness auto
termination
proof (relation "measure length")
  show "wf (measure length)" by simp
next
  fix s :: string and p
  assume "find (\<lambda>p. take (length p) s = p) space_runes = Some p" "p \<noteq> []"
  then have "take (length p) s = p" by (auto simp: find_Some_iff)
  with \<open>p \<noteq> []\<close> have "s \<noteq> []" by auto
  with \<open>p \<noteq> []\<close> show "(drop (length p) s, s) \<in> measure length" by simp
qed

declare trim_left.simps [simp del]

function trim_right :: "string \<Rightarrow> string" where
  "trim_right s =
     (case find (\<lambda>p. drop (length s - length p) s = p) space_runes of
        None \<Rightarrow> s
      | Some p \<Rightarrow> if p = [] then s else trim_right (take (length s - length p) s))"
  by pat_completeness auto
termination
proof (relation "measure length")
  show "wf (measure length)" by simp
next
  fix s :: string and p
  assume "find (\<lambda>p. drop (length s - length p) s = p) space_runes = Some p" "p \<noteq> []"
  then have "drop (length s - length p) s = p" by (auto simp: find_Some_iff)
  with \<open>p \<noteq> []\<close> have "s \<noteq> []" by auto
  with \<open>p \<noteq> []\<close> show "(take (length s - length p) s, s) \<in> measure length" by simp
qed

declare trim_right.simps [simp del]

definition TrimSpace :: "string \<Rightarrow> string" where
  "TrimSpace s = trim_right (trim_left s)"

text \<open>Go's integer division and remainder truncate towards zero.\<close>

definition go_div :: "int \<Rightarrow> int \<Rightarrow> int" where
  "go_div a b = sgn a * sgn b * (\<bar>a\<bar> div \<bar>b\<bar>)"

definition go_mod :: "int \<Rightarrow> int \<Rightarrow> int" where
  "go_mod a b = a - b * go_div a b"

text \<open>The value that arithmetic in \<^verbatim>\<open>int64\<close> leaves: the result modulo \<open>2^64\<close>, read as signed.\<close>

definition wrap64 :: "int \<Rightarrow> int" where
  "wrap64 x = (x + 2 ^ 63) mod 2 ^ 64 - 2 ^ 63"

text \<open>
  \<^verbatim>\<open>int(math.Pow10(e))\<close>. For \<open>e < 0\<close> the power is a fraction below one and the conversion
  truncates it to 0; for \<open>0 \<le> e \<le> 18\<close> it is the exact power. Beyond that the power does not
  fit \<^verbatim>\<open>int64\<close> and Go leaves the conversion to the implementation; the model gives the
  value of the amd64 instruction, \<open>- 2^63\<close>.
\<close>

definition pow10_int :: "int \<Rightarrow> int" where
  "pow10_int e = (if e < 0 then 0 else if e \<le> 18 then 10 ^ nat e else - (2 ^ 63))"

text \<open>Rounding the fraction \<open>a / b\<close> to the nearest natural number, a tie to the even one.\<close>

definition round_half_even :: "nat \<Rightarrow> nat \<Rightarrow> nat" where
  "round_half_even a b =
     (let q = a div b; r = a mod b in
      if 2 * r < b then q else if b < 2 * r then q + 1
      else if even q then q else q + 1)"

text \<open>
  \<^verbatim>\<open>float64(k) / float64(1000)\<close> for \<open>0 \<le> k < 1000\<close>: the IEEE 754 double nearest to the
  quotient, given as a pair \<open>(m, t)\<close> that stands for \<open>m / 2^t\<close>. For \<open>k > 0\<close> the quotient lies
  in the binade \<open>[2^-e, 2^(1-e))\<close> for the least \<open>e\<close> with \<open>1000 \<le> k * 2^e\<close>, and the significand
  has 53 bits: \<open>m\<close> is \<open>k * 2^(52+e) / 1000\<close> rounded.
\<close>

definition binade :: "nat \<Rightarrow> nat" where
  "binade k = (case find (\<lambda>e. 1000 \<le> k * 2 ^ e) [1..<11] of None \<Rightarrow> 11 | Some e \<Rightarrow> e)"

definition float64_div_1000 :: "nat \<Rightarrow> nat \<times> nat" where
  "float64_div_1000 k =
     (if k = 0 then (0, 0)
      else (round_half_even (k * 2 ^ (52 + binade k)) 1000, 52 + binade k))"

text \<open>
  \<^verbatim>\<open>fmt.Sprintf("%.nf", x)\<close> for the double \<open>x\<close> of magnitude \<open>m / 2^t\<close>: the exact value rounded
  to \<open>n\<close> decimals (a tie to even), the integer part, and for \<open>n > 0\<close> a point and \<open>n\<close> digits.
\<close>

definition Sprintf_f :: "nat \<Rightarrow> bool \<Rightarrow> nat \<times> nat \<Rightarrow> string" where
  "Sprintf_f n negative x =
     (case x of (m, t) \<Rightarrow>
        let total = round_half_even (m * 10 ^ n) (2 ^ t) in
        (if negative then ''-'' else [])
        @ nat_digits 10 (total div 10 ^ n)
        @ (if n = 0 then [] else CHR ''.'' # zero_pad n (nat_digits 10 (total mod 10 ^ n))))"

section \<open>The duration codec\<close>

text \<open>
  \<^verbatim>\<open>parseDuration\<close>, in the two steps of the source. \<open>parse_clock\<close> is the second step: it
  splits hours, minutes and seconds, parses each and adds up; \<open>i\<close> is the whole input, for the
  error message, \<open>milliseconds\<close> what the first step found and \<open>s\<close> the text left of the
  fraction. The sum is computed in \<^verbatim>\<open>int64\<close>.
\<close>

definition parse_clock :: "string \<Rightarrow> int \<Rightarrow> string \<Rightarrow> error + duration" where
  "parse_clock i milliseconds s =
     (let parts = Split (TrimSpace s) '':'' in
      if length parts \<noteq> 2 \<and> length parts \<noteq> 3 then Inl (NoHoursMinutesSeconds i)
      else
        let partSeconds = (if length parts = 2 then parts ! 1 else parts ! 2);
            partMinutes = (if length parts = 2 then parts ! 0 else parts ! 1);
            partHours = (if length parts = 2 then [] else parts ! 0)
        in case Atoi (TrimSpace partSeconds) of
             Inl e \<Rightarrow> Inl (AtoiFailed (TrimSpace partSeconds) e)
           | Inr seconds \<Rightarrow>
               (case Atoi (TrimSpace partMinutes) of
                  Inl e \<Rightarrow> Inl (AtoiFailed (TrimSpace partMinutes) e)
                | Inr minutes \<Rightarrow>
                    (case (if length partHours > 0
                           then (case Atoi (TrimSpace partHours) of
                                   Inl e \<Rightarrow> Inl (AtoiFailed (TrimSpace partHours) e)
                                 | Inr h \<Rightarrow> Inr h)
                           else Inr 0) of
                       Inl e \<Rightarrow> Inl e
                     | Inr hours \<Rightarrow>
                         Inr (wrap64 (milliseconds * Millisecond + seconds * Second
                                + minutes * Minute + hours * Hour)))))"

text \<open>
  The first step splits the fraction off. \<open>n\<close> is \<^verbatim>\<open>numberOfMillisecondDigits\<close>, a number of
  digits (a negative argument is outside the model).
\<close>

definition parseDuration :: "string \<Rightarrow> string \<Rightarrow> nat \<Rightarrow> error + duration" where
  "parseDuration i millisecondSep n =
     (let parts = Split i millisecondSep in
      if length parts \<ge> 2 then
        (let s = TrimSpace (last parts) in
         if length s > 3 then Inl (InvalidMillisecondDigits i)
         else case Atoi s of
           Inl e \<Rightarrow> Inl (AtoiFailed s e)
         | Inr ms \<Rightarrow>
             parse_clock i (ms * pow10_int (int n - int (length s)))
               (Join (butlast parts) millisecondSep))
      else parse_clock i 0 i)"

text \<open>
  \<^verbatim>\<open>formatDuration\<close>. The slice expression \<^verbatim>\<open>[2:]\<close> panics when the formatted fraction has
  fewer than two bytes.
\<close>

definition two_digits :: "int \<Rightarrow> string" where
  "two_digits v = (if v < 10 then ''0'' else []) @ Itoa v"

definition formatDuration :: "duration \<Rightarrow> string \<Rightarrow> nat \<Rightarrow> error + string" where
  "formatDuration i millisecondSep n =
     (let hours = go_div i Hour;
          minutes = go_div (go_mod i Hour) Minute;
          seconds = go_div (go_mod i Minute) Second;
          ms = go_div (go_mod i Second) Millisecond;
          s = two_digits hours @ '':'' @ two_digits minutes @ '':''
              @ two_digits seconds @ millisecondSep;
          fraction = Sprintf_f n (ms < 0) (float64_div_1000 (nat \<bar>ms\<bar>))
      in if length fraction < 2 then Inl SliceOutOfRange
         else Inr (s @ drop 2 fraction))"

subsection \<open>Splitting a string whose separator stands where it was put\<close>

lemma split_from_none:
  "sep \<noteq> [] \<Longrightarrow> hd sep \<notin> set xs \<Longrightarrow> split_from sep acc xs = [acc @ xs]"
proof (induction xs arbitrary: acc)
  case Nil
  then show ?case by (subst split_from.simps) simp
next
  case (Cons c cs)
  then have "take (length sep) (c # cs) \<noteq> sep"
    by (cases sep) auto
  moreover have "split_from sep (acc @ [c]) cs = [(acc @ [c]) @ cs]"
    using Cons by simp
  ultimately show ?case by (subst split_from.simps) simp
qed

lemma split_from_first:
  "sep \<noteq> [] \<Longrightarrow> hd sep \<notin> set a \<Longrightarrow>
   split_from sep acc (a @ sep @ b) = (acc @ a) # split_from sep [] b"
proof (induction a arbitrary: acc)
  case Nil
  then show ?case by (subst split_from.simps) simp
next
  case (Cons c cs)
  then have "take (length sep) ((c # cs) @ sep @ b) \<noteq> sep"
    by (cases sep) auto
  moreover have "split_from sep (acc @ [c]) (cs @ sep @ b) = ((acc @ [c]) @ cs) # split_from sep [] b"
    using Cons by simp
  ultimately show ?case by (subst split_from.simps) simp
qed

lemma Split_two:
  assumes "sep \<noteq> []" "hd sep \<notin> set a" "hd sep \<notin> set b"
  shows "Split (a @ sep @ b) sep = [a, b]"
  using assms by (simp add: Split_def split_from_first split_from_none)

lemma Split_three:
  assumes "sep \<noteq> []" "hd sep \<notin> set a" "hd sep \<notin> set b" "hd sep \<notin> set c"
  shows "Split (a @ sep @ b @ sep @ c) sep = [a, b, c]"
  using assms by (simp add: Split_def split_from_first split_from_none)

lemma Split_one:
  assumes "sep \<noteq> []" "hd sep \<notin> set a"
  shows "Split a sep = [a]"
  using assms by (simp add: Split_def split_from_none)

subsection \<open>White space\<close>

lemma trim_left_plain:
  assumes "\<forall>p \<in> set space_runes. take (length p) s \<noteq> p"
  shows "trim_left s = s"
proof -
  have "find (\<lambda>p. take (length p) s = p) space_runes = None"
    using assms by (simp add: find_None_iff)
  then show ?thesis by (subst trim_left.simps) simp
qed

lemma trim_right_plain:
  assumes "\<forall>p \<in> set space_runes. drop (length s - length p) s \<noteq> p"
  shows "trim_right s = s"
proof -
  have "find (\<lambda>p. drop (length s - length p) s = p) space_runes = None"
    using assms by (simp add: find_None_iff)
  then show ?thesis by (subst trim_right.simps) simp
qed

text \<open>The bytes with which an encoded white space character begins or ends.\<close>

definition space_edge :: "char set" where
  "space_edge = hd ` set space_runes \<union> last ` set space_runes"

lemma TrimSpace_plain:
  assumes "s = [] \<or> (hd s \<notin> space_edge \<and> last s \<notin> space_edge)"
  shows "TrimSpace s = s"
proof (cases "s = []")
  case True
  have "\<forall>p \<in> set space_runes. p \<noteq> []" by (simp add: space_runes_def)
  then have "\<forall>p \<in> set space_runes. take (length p) ([] :: string) \<noteq> p"
    and "\<forall>p \<in> set space_runes. drop (length ([] :: string) - length p) [] \<noteq> p"
    by auto
  with True show ?thesis
    by (simp add: TrimSpace_def trim_left_plain trim_right_plain)
next
  case False
  with assms have h: "hd s \<notin> space_edge" and l: "last s \<notin> space_edge" by simp_all
  have ne: "\<forall>p \<in> set space_runes. p \<noteq> []" by (simp add: space_runes_def)
  have left: "\<forall>p \<in> set space_runes. take (length p) s \<noteq> p"
  proof
    fix p assume p: "p \<in> set space_runes"
    show "take (length p) s \<noteq> p"
    proof
      assume eq: "take (length p) s = p"
      from p ne have "p \<noteq> []" by blast
      then have "hd p = hd (take (length p) s)" using eq by simp
      also have "\<dots> = hd s" using \<open>p \<noteq> []\<close> False by (cases s; cases p) simp_all
      finally have "hd p = hd s" .
      then have "hd s \<in> hd ` set space_runes" using p by (metis imageI)
      with h show False by (simp add: space_edge_def)
    qed
  qed
  have right: "\<forall>p \<in> set space_runes. drop (length s - length p) s \<noteq> p"
  proof
    fix p assume p: "p \<in> set space_runes"
    show "drop (length s - length p) s \<noteq> p"
    proof
      assume eq: "drop (length s - length p) s = p"
      from p ne have pn: "p \<noteq> []" by blast
      then have "last p = last (drop (length s - length p) s)" using eq by simp
      also have "\<dots> = last s"
        using pn eq False by (metis last_drop drop_eq_Nil not_le)
      finally have "last p = last s" .
      then have "last s \<in> last ` set space_runes" using p by (metis imageI)
      with l show False by (simp add: space_edge_def)
    qed
  qed
  show ?thesis
    by (simp add: TrimSpace_def trim_left_plain [OF left] trim_right_plain [OF right])
qed


lemma space_edge_codes:
  assumes "(of_char c :: nat) < 128" and "(of_char c :: nat) \<notin> {9, 10, 11, 12, 13, 32}"
  shows "c \<notin> space_edge"
proof
  assume "c \<in> space_edge"
  then have "(of_char c :: nat) \<in> of_char ` space_edge" by (rule imageI)
  also have "of_char ` space_edge \<subseteq> ({9, 10, 11, 12, 13, 32} \<union> {128..} :: nat set)"
    by (simp add: space_edge_def space_runes_def)
  finally show False using assms by auto
qed

lemma of_char_digit_char: "d < 10 \<Longrightarrow> (of_char (digit_char d) :: nat) = 48 + d"
  by (simp add: digit_char_def)

lemma digit_char_plain: "d < 10 \<Longrightarrow> digit_char d \<notin> space_edge"
  by (rule space_edge_codes) (simp_all add: of_char_digit_char)

text \<open>A decimal digit, as a byte.\<close>

definition is_digit :: "char \<Rightarrow> bool" where
  "is_digit c = (48 \<le> (of_char c :: nat) \<and> (of_char c :: nat) \<le> 57)"

lemma is_digit_plain: "is_digit c \<Longrightarrow> c \<notin> space_edge"
  by (rule space_edge_codes) (auto simp: is_digit_def)

lemma is_digit_digit_char: "d < 10 \<Longrightarrow> is_digit (digit_char d)"
  by (simp add: is_digit_def of_char_digit_char)

lemma nat_digits_10_is_digit: "c \<in> set (nat_digits 10 n) \<Longrightarrow> is_digit c"
  using nat_digits_chars [of 10 c n] is_digit_digit_char by auto

lemma TrimSpace_digits:
  assumes "\<forall>c \<in> set s. is_digit c"
  shows "TrimSpace s = s"
proof (rule TrimSpace_plain)
  show "s = [] \<or> (hd s \<notin> space_edge \<and> last s \<notin> space_edge)"
  proof (cases "s = []")
    case True
    then show ?thesis by simp
  next
    case False
    then have "hd s \<in> set s" "last s \<in> set s" by simp_all
    with assms show ?thesis by (auto dest: is_digit_plain)
  qed
qed

subsection \<open>parseDuration on an input whose parts are known\<close>

lemma parse_clock_three:
  assumes "Split (TrimSpace s) '':'' = [hh, mm, ss]"
  shows "parse_clock i milliseconds s =
    (case Atoi (TrimSpace ss) of
       Inl e \<Rightarrow> Inl (AtoiFailed (TrimSpace ss) e)
     | Inr seconds \<Rightarrow>
         (case Atoi (TrimSpace mm) of
            Inl e \<Rightarrow> Inl (AtoiFailed (TrimSpace mm) e)
          | Inr minutes \<Rightarrow>
              (if hh = [] then
                 Inr (wrap64 (milliseconds * Millisecond + seconds * Second + minutes * Minute))
               else
                 (case Atoi (TrimSpace hh) of
                    Inl e \<Rightarrow> Inl (AtoiFailed (TrimSpace hh) e)
                  | Inr hours \<Rightarrow>
                      Inr (wrap64 (milliseconds * Millisecond + seconds * Second
                            + minutes * Minute + hours * Hour))))))"
  by (simp add: parse_clock_def assms Let_def split: sum.splits)

lemma parseDuration_fraction:
  assumes "Split i sep = [hms, ff]"
  shows "parseDuration i sep n =
    (if 3 < length (TrimSpace ff) then Inl (InvalidMillisecondDigits i)
     else case Atoi (TrimSpace ff) of
       Inl e \<Rightarrow> Inl (AtoiFailed (TrimSpace ff) e)
     | Inr ms \<Rightarrow>
         parse_clock i (ms * pow10_int (int n - int (length (TrimSpace ff)))) hms)"
  by (simp add: parseDuration_def assms Let_def split: sum.splits)

subsection \<open>Rounding\<close>

lemma round_half_even_error:
  assumes "0 < b"
  shows "2 * (round_half_even a b * b) \<le> 2 * a + b \<and> 2 * a \<le> 2 * (round_half_even a b * b) + b"
proof -
  define q r where "q = a div b" and "r = a mod b"
  have a: "a = q * b + r" and r: "r < b"
    using assms by (simp_all add: q_def r_def)
  consider "2 * r < b" | "b < 2 * r" | "2 * r = b" by linarith
  then show ?thesis
  proof cases
    case 1
    then have "round_half_even a b = q"
      by (simp add: round_half_even_def q_def r_def Let_def)
    with a 1 show ?thesis by simp
  next
    case 2
    then have "round_half_even a b = q + 1"
      by (simp add: round_half_even_def q_def r_def Let_def)
    with a 2 r show ?thesis by (simp add: algebra_simps)
  next
    case 3
    then have "round_half_even a b = q \<or> round_half_even a b = q + 1"
      by (simp add: round_half_even_def q_def r_def Let_def)
    with a 3 show ?thesis by (auto simp: algebra_simps)
  qed
qed

lemma round_half_even_near:
  assumes "0 < b" and "2 * a < 2 * (k * b) + b" and "2 * (k * b) < 2 * a + b"
  shows "round_half_even a b = k"
proof -
  define q r where "q = a div b" and "r = a mod b"
  have a: "a = q * b + r" and r: "r < b"
    using assms(1) by (simp_all add: q_def r_def)
  have "q = k \<or> (q + 1 = k)"
  proof -
    have "2 * (q * b) < 2 * (k * b) + b" using assms(2) a by simp
    then have "2 * (q * b) < (2 * k + 1) * b" by (simp add: algebra_simps)
    then have "2 * q < 2 * k + 1"
      by (metis mult.assoc mult.commute mult_less_cancel2)
    then have qk: "q \<le> k" by simp
    have "2 * (k * b) < 2 * (q * b + r) + b" using assms(3) a by simp
    also have "\<dots> < 2 * (q * b) + 3 * b" using r by simp
    finally have "2 * (k * b) < (2 * q + 3) * b" by (simp add: algebra_simps)
    then have "2 * k < 2 * q + 3"
      by (metis mult.assoc mult.commute mult_less_cancel2)
    then have "k \<le> q + 1" by simp
    with qk show ?thesis by linarith
  qed
  then show ?thesis
  proof
    assume "q = k"
    with assms(2) a have "2 * r < b" by simp
    then show ?thesis using \<open>q = k\<close>
      by (simp add: round_half_even_def q_def r_def Let_def)
  next
    assume k: "q + 1 = k"
    have "2 * ((q + 1) * b) < 2 * (q * b + r) + b"
      using assms(3) a k by simp
    then have "2 * (q * b) + 2 * b < 2 * (q * b) + 2 * r + b"
      by (simp add: algebra_simps)
    then have "b < 2 * r" by linarith
    then show ?thesis using k
      by (simp add: round_half_even_def q_def r_def Let_def)
  qed
qed

lemma round_half_even_le:
  assumes "0 < b" and "a \<le> c * b"
  shows "round_half_even a b \<le> c"
proof -
  define q r where "q = a div b" and "r = a mod b"
  have a: "a = q * b + r" and r: "r < b"
    using assms(1) by (simp_all add: q_def r_def)
  have "a div b \<le> (c * b) div b"
    using assms(2) by (rule div_le_mono)
  then have "q \<le> c"
    using assms(1) by (simp add: q_def)
  show ?thesis
  proof (cases "q = c")
    case True
    with a assms(2) have "r = 0" by simp
    then show ?thesis using True assms(1)
      by (simp add: round_half_even_def q_def r_def Let_def)
  next
    case False
    with \<open>q \<le> c\<close> have "q + 1 \<le> c" by simp
    then show ?thesis
      by (auto simp: round_half_even_def q_def r_def Let_def)
  qed
qed


subsection \<open>The fraction of a second as a double, and its decimal rendering\<close>

lemma binade_ge_1: "1 \<le> binade k"
proof (cases "find (\<lambda>e. 1000 \<le> k * 2 ^ e) [1..<11]")
  case None
  then show ?thesis by (simp add: binade_def)
next
  case (Some e)
  then have "e \<in> set [1..<11]" by (auto simp: find_Some_iff)
  with Some show ?thesis by (simp add: binade_def)
qed

lemma float64_div_1000_props:
  assumes "k < 1000" and "float64_div_1000 k = (m, t)"
  shows "m \<le> 2 ^ t"
    and "0 < k \<Longrightarrow> 53 \<le> t"
    and "2 * (m * 1000) \<le> 2 * (k * 2 ^ t) + 1000"
    and "2 * (k * 2 ^ t) \<le> 2 * (m * 1000) + 1000"
proof -
  show "m \<le> 2 ^ t"
  proof (cases "k = 0")
    case True
    with assms(2) show ?thesis by (simp add: float64_div_1000_def)
  next
    case False
    with assms(2) have t: "t = 52 + binade k" and m: "m = round_half_even (k * 2 ^ t) 1000"
      by (auto simp: float64_div_1000_def)
    have "k * 2 ^ t \<le> 2 ^ t * 1000" using assms(1) by simp
    then show ?thesis unfolding m by (intro round_half_even_le) simp_all
  qed
  show "53 \<le> t" if "0 < k"
    using that assms(2) binade_ge_1 [of k] by (auto simp: float64_div_1000_def)
  show "2 * (m * 1000) \<le> 2 * (k * 2 ^ t) + 1000"
    and "2 * (k * 2 ^ t) \<le> 2 * (m * 1000) + 1000"
  proof -
    have "2 * (m * 1000) \<le> 2 * (k * 2 ^ t) + 1000 \<and> 2 * (k * 2 ^ t) \<le> 2 * (m * 1000) + 1000"
    proof (cases "k = 0")
      case True
      with assms(2) show ?thesis by (simp add: float64_div_1000_def)
    next
      case False
      with assms(2) have m: "m = round_half_even (k * 2 ^ t) 1000"
        by (auto simp: float64_div_1000_def)
      show ?thesis
        unfolding m using round_half_even_error [of 1000 "k * 2 ^ t"] by simp
    qed
    then show "2 * (m * 1000) \<le> 2 * (k * 2 ^ t) + 1000"
      and "2 * (k * 2 ^ t) \<le> 2 * (m * 1000) + 1000" by simp_all
  qed
qed

lemma nat_digits_small: "2 \<le> b \<Longrightarrow> n < b \<Longrightarrow> nat_digits b n = [digit_char n]"
  by (subst nat_digits.simps) simp

lemma Sprintf_f_three:
  assumes "k < 1000"
  shows "Sprintf_f 3 False (float64_div_1000 k) = ''0.'' @ zero_pad 3 (nat_digits 10 k)"
proof -
  obtain m t where mt: "float64_div_1000 k = (m, t)" by (cases "float64_div_1000 k")
  have total: "round_half_even (m * 1000) (2 ^ t) = k"
  proof (cases "k = 0")
    case True
    with mt show ?thesis by (simp add: float64_div_1000_def round_half_even_def)
  next
    case False
    then have "53 \<le> t" using float64_div_1000_props(2) [OF assms mt] by simp
    then have "(2::nat) ^ 53 \<le> 2 ^ t" by (intro power_increasing) simp_all
    moreover have "(1000::nat) < 2 ^ 53" by simp
    ultimately have big: "(1000::nat) < 2 ^ t" by (rule less_le_trans [rotated])
    note e = float64_div_1000_props(3,4) [OF assms mt]
    show ?thesis
    proof (rule round_half_even_near)
      show "0 < (2::nat) ^ t" by simp
      show "2 * (m * 1000) < 2 * (k * 2 ^ t) + 2 ^ t" using e(1) big by simp
      show "2 * (k * 2 ^ t) < 2 * (m * 1000) + 2 ^ t" using e(2) big by simp
    qed
  qed
  have "nat_digits 10 0 = ''0''" by (simp add: nat_digits_small digit_char_def) code_simp
  then show ?thesis
    using assms by (simp add: Sprintf_f_def mt total Let_def)
qed

lemma Sprintf_f_zero_length:
  assumes "k < 1000"
  shows "length (Sprintf_f 0 False (float64_div_1000 k)) = 1"
proof -
  obtain m t where mt: "float64_div_1000 k = (m, t)" by (cases "float64_div_1000 k")
  have "m \<le> 1 * 2 ^ t" using float64_div_1000_props(1) [OF assms mt] by simp
  then have "round_half_even m (2 ^ t) \<le> 1" by (intro round_half_even_le) simp_all
  then have "nat_digits 10 (round_half_even m (2 ^ t)) = [digit_char (round_half_even m (2 ^ t))]"
    by (intro nat_digits_small) simp_all
  then show ?thesis by (simp add: Sprintf_f_def mt Let_def)
qed

lemma Sprintf_f_length: "0 < n \<Longrightarrow> n + 2 \<le> length (Sprintf_f n negative x)"
proof -
  assume n: "0 < n"
  obtain m t where mt: "x = (m, t)" by (cases x)
  let ?total = "round_half_even (m * 10 ^ n) (2 ^ t)"
  have a: "1 \<le> length (nat_digits 10 (?total div 10 ^ n))"
    using nat_digits_not_Nil [of 10 "?total div 10 ^ n"]
    by (cases "nat_digits 10 (?total div 10 ^ n)") simp_all
  have b: "n \<le> length (zero_pad n (nat_digits 10 (?total mod 10 ^ n)))"
    by (simp add: zero_pad_def)
  show ?thesis
    using n a b by (simp add: Sprintf_f_def mt Let_def)
qed

subsection \<open>formatDuration on a duration that is not negative\<close>

lemma go_div_nonneg: "0 \<le> a \<Longrightarrow> 0 < b \<Longrightarrow> go_div a b = a div b"
  by (cases "a = 0") (simp_all add: go_div_def)

lemma go_mod_nonneg: "0 \<le> a \<Longrightarrow> 0 < b \<Longrightarrow> go_mod a b = a mod b"
  by (simp add: go_mod_def go_div_nonneg minus_mult_div_eq_mod)

lemma unit_positive: "0 < Millisecond" "0 < Second" "0 < Minute" "0 < Hour"
  by (simp_all add: Millisecond_def Second_def Minute_def Hour_def)

lemma part_range:
  fixes x :: int
  assumes "0 \<le> x" "x < b * c" "0 < c"
  shows "0 \<le> x div c" "x div c < b"
proof -
  show "0 \<le> x div c" using assms(1,3) by (simp add: pos_imp_zdiv_nonneg_iff)
  show "x div c < b"
  proof (rule ccontr)
    assume "\<not> x div c < b"
    then have "b \<le> x div c" by simp
    then have "b * c \<le> (x div c) * c" using assms(3) by (simp add: mult_right_mono)
    moreover have "x = (x div c) * c + x mod c" by simp
    moreover have "0 \<le> x mod c" using assms(3) by simp
    ultimately show False using assms(2) by linarith
  qed
qed


lemma formatDuration_nonneg:
  assumes "0 \<le> d"
  shows "formatDuration d sep n =
    (if length (Sprintf_f n False (float64_div_1000 (nat ((d mod Second) div Millisecond)))) < 2
     then Inl SliceOutOfRange
     else Inr (two_digits (d div Hour) @ '':'' @ two_digits ((d mod Hour) div Minute) @ '':''
            @ two_digits ((d mod Minute) div Second) @ sep
            @ drop 2 (Sprintf_f n False
                (float64_div_1000 (nat ((d mod Second) div Millisecond))))))"
proof -
  have ms: "0 \<le> (d mod Second) div Millisecond"
    using part_range(1) [of "d mod Second" 1000 Millisecond] unit_positive
    by (simp add: Second_def)
  have "0 \<le> d mod Hour" "0 \<le> d mod Minute" "0 \<le> d mod Second"
    using unit_positive by simp_all
  then show ?thesis
    using assms ms unit_positive
    by (simp add: formatDuration_def go_div_nonneg go_mod_nonneg Let_def)
qed

lemma millis_lt_1000: "nat ((d mod Second) div Millisecond) < 1000"
proof -
  have "0 \<le> d mod Second" "d mod Second < 1000 * Millisecond"
    using unit_positive by (simp_all add: Second_def)
  from part_range(2) [OF this unit_positive(1)] show ?thesis by simp
qed

text \<open>
  C10. For a duration that is not negative, \<^verbatim>\<open>formatDuration\<close> returns a string exactly when
  the number of millisecond digits is at least 1; with 0 digits the formatted fraction is a
  single byte and the slice \<^verbatim>\<open>[2:]\<close> is out of range.
\<close>

theorem formatDuration_total_iff:
  assumes "0 \<le> d"
  shows "((\<exists>s. formatDuration d sep n = Inr s) \<longleftrightarrow> 1 \<le> n)
    \<and> (formatDuration d sep n = Inl SliceOutOfRange \<longleftrightarrow> n = 0)"
proof (cases "n = 0")
  case True
  have "length (Sprintf_f 0 False (float64_div_1000 (nat ((d mod Second) div Millisecond)))) = 1"
    using millis_lt_1000 by (rule Sprintf_f_zero_length)
  then have "formatDuration d sep 0 = Inl SliceOutOfRange"
    by (simp add: formatDuration_nonneg [OF assms])
  with True show ?thesis by simp
next
  case False
  then have "n + 2 \<le> length (Sprintf_f n False (float64_div_1000 (nat ((d mod Second) div Millisecond))))"
    by (intro Sprintf_f_length) simp
  then have "\<not> length (Sprintf_f n False (float64_div_1000 (nat ((d mod Second) div Millisecond)))) < 2"
    by simp
  then have "\<exists>s. formatDuration d sep n = Inr s"
    by (simp add: formatDuration_nonneg [OF assms])
  with False show ?thesis by auto
qed

subsection \<open>The pieces of a formatted duration\<close>

lemma nat_digits_length_le:
  "2 \<le> b \<Longrightarrow> 0 < j \<Longrightarrow> n < b ^ j \<Longrightarrow> length (nat_digits b n) \<le> j"
proof (induction b n arbitrary: j rule: nat_digits.induct)
  case (1 b n)
  show ?case
  proof (cases "n < b")
    case True
    then have "nat_digits b n = [digit_char n]" by (subst nat_digits.simps) simp
    with "1.prems"(2) show ?thesis by simp
  next
    case False
    then have unfold: "nat_digits b n = nat_digits b (n div b) @ [digit_char (n mod b)]"
      using "1.prems"(1) by (subst nat_digits.simps) (simp add: not_less)
    obtain i where j: "j = Suc i" using "1.prems"(2) by (cases j) auto
    have "i \<noteq> 0"
    proof
      assume "i = 0"
      with j "1.prems"(3) have "n < b" by simp
      with False show False by simp
    qed
    then have ipos: "0 < i" by simp
    have "n < b * b ^ i" using "1.prems"(3) j by simp
    then have "n div b < b ^ i"
      using "1.prems"(1) by (simp add: less_mult_imp_div_less mult.commute)
    then have "length (nat_digits b (n div b)) \<le> i"
      using "1.IH" False "1.prems"(1) ipos by simp
    then show ?thesis by (simp add: unfold j)
  qed
qed

lemma is_digit_zero: "is_digit (CHR ''0'')"
  by (simp add: is_digit_def)

lemma is_digit_not_colon: "is_digit c \<Longrightarrow> c \<noteq> CHR '':''"
  by (auto simp: is_digit_def)

lemma two_digits_props:
  assumes "0 \<le> v" "v < 2 ^ 63"
  shows "Atoi (two_digits v) = Inr v"
    and "\<forall>c \<in> set (two_digits v). is_digit c"
    and "two_digits v \<noteq> []"
proof -
  define j :: nat where "j = (if v < 10 then 1 else 0)"
  have form: "two_digits v = replicate j (CHR ''0'') @ nat_digits 10 (nat v)"
    using assms(1) by (simp add: two_digits_def Itoa_def j_def)
  have "nat v < 2 ^ 63" using assms by (simp add: nat_less_iff)
  then have "ParseInt (replicate j (CHR ''0'') @ nat_digits (nat 10) (nat v)) 10 = Inr (int (nat v))"
    by (intro ParseInt_nat_digits) simp_all
  then show "Atoi (two_digits v) = Inr v"
    using assms(1) by (simp add: Atoi_def form)
  show "\<forall>c \<in> set (two_digits v). is_digit c"
    unfolding form using is_digit_zero nat_digits_10_is_digit by auto
  show "two_digits v \<noteq> []"
    unfolding form by (simp add: nat_digits_not_Nil)
qed

lemma three_digits_props:
  assumes "k < 1000"
  shows "Atoi (zero_pad 3 (nat_digits 10 k)) = Inr (int k)"
    and "\<forall>c \<in> set (zero_pad 3 (nat_digits 10 k)). is_digit c"
    and "length (zero_pad 3 (nat_digits 10 k)) = 3"
proof -
  have "k < 2 ^ 63"
  proof -
    have "(1000::nat) < 2 ^ 63" by simp
    with assms show ?thesis by (rule less_trans)
  qed
  then have "ParseInt (replicate (3 - length (nat_digits 10 k)) (CHR ''0'')
      @ nat_digits (nat 10) k) 10 = Inr (int k)"
    by (intro ParseInt_nat_digits) simp_all
  then show "Atoi (zero_pad 3 (nat_digits 10 k)) = Inr (int k)"
    by (simp add: Atoi_def zero_pad_def)
  show "\<forall>c \<in> set (zero_pad 3 (nat_digits 10 k)). is_digit c"
    unfolding zero_pad_def using is_digit_zero nat_digits_10_is_digit by auto
  have "length (nat_digits 10 k) \<le> 3"
    using assms by (intro nat_digits_length_le) simp_all
  then show "length (zero_pad 3 (nat_digits 10 k)) = 3"
    by (simp add: zero_pad_def)
qed

lemma formatDuration_three:
  assumes "0 \<le> d"
  shows "formatDuration d sep 3 =
     Inr (two_digits (d div Hour) @ '':'' @ two_digits ((d mod Hour) div Minute) @ '':''
          @ two_digits ((d mod Minute) div Second) @ sep
          @ zero_pad 3 (nat_digits 10 (nat ((d mod Second) div Millisecond))))"
  by (simp add: formatDuration_nonneg [OF assms] Sprintf_f_three [OF millis_lt_1000])

subsection \<open>Hours, minutes, seconds and milliseconds add up\<close>

lemma split_unit:
  fixes x a b :: int
  assumes "a dvd b"
  shows "x mod b = ((x mod b) div a) * a + x mod a"
proof -
  have "x mod b = ((x mod b) div a) * a + (x mod b) mod a" by simp
  also have "(x mod b) mod a = x mod a" using assms by (rule mod_mod_cancel)
  finally show ?thesis .
qed

lemma duration_parts:
  assumes "d mod Millisecond = 0"
  shows "((d mod Second) div Millisecond) * Millisecond + ((d mod Minute) div Second) * Second
      + ((d mod Hour) div Minute) * Minute + (d div Hour) * Hour = d"
proof -
  have "Minute dvd Hour" "Second dvd Minute" "Millisecond dvd Second"
    by (simp_all add: Hour_def Minute_def Second_def)
  then have "d mod Hour = ((d mod Hour) div Minute) * Minute + d mod Minute"
    and "d mod Minute = ((d mod Minute) div Second) * Second + d mod Second"
    and "d mod Second = ((d mod Second) div Millisecond) * Millisecond + d mod Millisecond"
    by (simp_all only: split_unit [symmetric])
  moreover have "d = (d div Hour) * Hour + d mod Hour" by simp
  ultimately show ?thesis using assms by linarith
qed

lemma wrap64_id: "0 \<le> d \<Longrightarrow> d < 2 ^ 63 \<Longrightarrow> wrap64 d = d"
  by (simp add: wrap64_def)

subsection \<open>An input with its separators where they belong\<close>

lemma parseDuration_segments:
  assumes sep: "sep \<noteq> []" "hd sep \<noteq> CHR '':''"
      "hd sep \<notin> set hh \<union> set mm \<union> set ss \<union> set ff"
    and colon: "CHR '':'' \<notin> set hh \<union> set mm \<union> set ss"
    and trimmed: "TrimSpace (hh @ '':'' @ mm @ '':'' @ ss) = hh @ '':'' @ mm @ '':'' @ ss"
  shows "parseDuration (hh @ '':'' @ mm @ '':'' @ ss @ sep @ ff) sep n =
    (if 3 < length (TrimSpace ff)
     then Inl (InvalidMillisecondDigits (hh @ '':'' @ mm @ '':'' @ ss @ sep @ ff))
     else case Atoi (TrimSpace ff) of
       Inl e \<Rightarrow> Inl (AtoiFailed (TrimSpace ff) e)
     | Inr ms \<Rightarrow>
        (case Atoi (TrimSpace ss) of
           Inl e \<Rightarrow> Inl (AtoiFailed (TrimSpace ss) e)
         | Inr seconds \<Rightarrow>
            (case Atoi (TrimSpace mm) of
               Inl e \<Rightarrow> Inl (AtoiFailed (TrimSpace mm) e)
             | Inr minutes \<Rightarrow>
                (if hh = [] then
                   Inr (wrap64 (ms * pow10_int (int n - int (length (TrimSpace ff))) * Millisecond
                          + seconds * Second + minutes * Minute))
                 else
                   (case Atoi (TrimSpace hh) of
                      Inl e \<Rightarrow> Inl (AtoiFailed (TrimSpace hh) e)
                    | Inr hours \<Rightarrow>
                        Inr (wrap64 (ms * pow10_int (int n - int (length (TrimSpace ff)))
                               * Millisecond
                               + seconds * Second + minutes * Minute + hours * Hour)))))))"
proof -
  let ?hms = "hh @ '':'' @ mm @ '':'' @ ss"
  let ?i = "hh @ '':'' @ mm @ '':'' @ ss @ sep @ ff"
  have i: "?i = ?hms @ sep @ ff" by simp
  have "hd sep \<notin> set ?hms" using sep(2,3) by auto
  moreover have "hd sep \<notin> set ff" using sep(3) by simp
  ultimately have "Split (?hms @ sep @ ff) sep = [?hms, ff]"
    using sep(1) by (intro Split_two)
  then have first: "Split ?i sep = [?hms, ff]" by (simp only: i)
  have "Split (hh @ '':'' @ mm @ '':'' @ ss) '':'' = [hh, mm, ss]"
    using colon by (intro Split_three) simp_all
  then have second: "Split (TrimSpace ?hms) '':'' = [hh, mm, ss]"
    by (simp only: trimmed)
  show ?thesis
    unfolding parseDuration_fraction [OF first] parse_clock_three [OF second] ..
qed

lemma parseDuration_plain:
  assumes sep: "sep \<noteq> []" "\<forall>c \<in> set sep. \<not> is_digit c \<and> c \<noteq> CHR '':''"
    and hh: "\<forall>c \<in> set hh. is_digit c" "hh \<noteq> []" "Atoi hh = Inr h"
    and mm: "\<forall>c \<in> set mm. is_digit c" "Atoi mm = Inr m"
    and ss: "\<forall>c \<in> set ss. is_digit c" "ss \<noteq> []" "Atoi ss = Inr s"
    and ff: "\<forall>c \<in> set ff. is_digit c" "length ff \<le> 3" "Atoi ff = Inr f"
  shows "parseDuration (hh @ '':'' @ mm @ '':'' @ ss @ sep @ ff) sep n =
     Inr (wrap64 (f * pow10_int (int n - int (length ff)) * Millisecond
            + s * Second + m * Minute + h * Hour))"
proof -
  have hs: "hd sep \<in> set sep" using sep(1) by simp
  with sep(2) have nd: "\<not> is_digit (hd sep)" and nc: "hd sep \<noteq> CHR '':''" by simp_all
  have a: "hd sep \<notin> set hh \<union> set mm \<union> set ss \<union> set ff"
    using nd hh(1) mm(1) ss(1) ff(1) by auto
  have b: "CHR '':'' \<notin> set hh \<union> set mm \<union> set ss"
    using hh(1) mm(1) ss(1) is_digit_not_colon by auto
  let ?hms = "hh @ '':'' @ mm @ '':'' @ ss"
  have "hd ?hms = hd hh" using hh(2) by simp
  moreover have "last ?hms = last ss" using ss(2) by simp
  moreover have "hd hh \<in> set hh" "last ss \<in> set ss" using hh(2) ss(2) by simp_all
  ultimately have "hd ?hms \<notin> space_edge \<and> last ?hms \<notin> space_edge"
    using hh(1) ss(1) is_digit_plain by metis
  then have c: "TrimSpace ?hms = ?hms" by (intro TrimSpace_plain) simp
  have t: "TrimSpace hh = hh" "TrimSpace mm = mm" "TrimSpace ss = ss" "TrimSpace ff = ff"
    using hh(1) mm(1) ss(1) ff(1) by (simp_all add: TrimSpace_digits)
  show ?thesis
    unfolding parseDuration_segments [OF sep(1) nc a b c] t
    using hh(2,3) mm(2) ss(3) ff(2,3) by simp
qed

subsection \<open>Evaluating numerals\<close>

lemma digit_char_values:
  "digit_char 0 = CHR ''0''" "digit_char (Suc 0) = CHR ''1''" "digit_char 2 = CHR ''2''"
  "digit_char 3 = CHR ''3''" "digit_char 4 = CHR ''4''" "digit_char 5 = CHR ''5''"
  "digit_char 6 = CHR ''6''" "digit_char 7 = CHR ''7''" "digit_char 8 = CHR ''8''"
  "digit_char 9 = CHR ''9''"
  by code_simp+

lemmas numeral_eval = two_digits_def Itoa_def zero_pad_def nat_digits.simps digit_char_values

lemmas Atoi_eval = Atoi_def ParseInt_def ParseUint_def digit_val_def

lemma float64_half: "float64_div_1000 500 = (4503599627370496, 53)"
proof -
  have "[Suc 0..<11] = [1, 2, 3, 4, 5, 6, 7, 8, 9, 10]" by (simp add: upt_rec)
  then show ?thesis
    by (simp add: float64_div_1000_def binade_def round_half_even_def)
qed

lemma Sprintf_f_half_4: "Sprintf_f 4 False (4503599627370496, 53) = ''0.5000''"
proof -
  have "round_half_even (4503599627370496 * 10 ^ 4) (2 ^ 53) = 5000"
    by (simp add: round_half_even_def)
  then show ?thesis by (simp add: Sprintf_f_def numeral_eval)
qed

section \<open>The claims about the duration codec\<close>

text \<open>
  C1, as stated, fails for every number of digits above 3: \<^verbatim>\<open>formatDuration\<close> writes that many
  digits, and \<^verbatim>\<open>parseDuration\<close> refuses a fraction of more than 3 bytes whatever the number
  of digits it is given. One and a half seconds, four digits:
\<close>

theorem format_parse_4_digits_fails:
  "formatDuration (1500 * Millisecond) ''.'' 4 = Inr ''00:00:01.5000''
   \<and> parseDuration ''00:00:01.5000'' ''.'' 4 = Inl (InvalidMillisecondDigits ''00:00:01.5000'')"
proof -
  define d where "d = 1500 * Millisecond"
  have parts: "d div Hour = 0" "(d mod Hour) div Minute = 0" "(d mod Minute) div Second = 1"
      "nat ((d mod Second) div Millisecond) = 500" "0 \<le> d"
    by (simp_all add: d_def Millisecond_def Second_def Minute_def Hour_def)
  have "formatDuration d ''.'' 4 = Inr ''00:00:01.5000''"
    by (simp add: formatDuration_nonneg [OF parts(5)] parts(1-4) float64_half
        Sprintf_f_half_4 numeral_eval)
  then have fmt: "formatDuration (1500 * Millisecond) ''.'' 4 = Inr ''00:00:01.5000''"
    by (simp only: d_def)
  have "Split (''00:00:01'' @ ''.'' @ ''5000'') ''.'' = [''00:00:01'', ''5000'']"
    by (intro Split_two) simp_all
  then have split: "Split ''00:00:01.5000'' ''.'' = [''00:00:01'', ''5000'']" by simp
  have "TrimSpace ''5000'' = ''5000''"
    by (intro TrimSpace_digits) (simp add: is_digit_def)
  then have "parseDuration ''00:00:01.5000'' ''.'' 4
      = Inl (InvalidMillisecondDigits ''00:00:01.5000'')"
    by (simp add: parseDuration_fraction [OF split])
  with fmt show ?thesis by simp
qed


text \<open>
  C1, amended. For every duration \<open>d\<close> that is not negative and a whole number of milliseconds,
  and every separator that is not empty and holds neither a decimal digit nor a colon,
  \<^verbatim>\<open>parseDuration(formatDuration(d, sep, 3), sep, 3)\<close> succeeds and returns exactly \<open>d\<close>: the law
  holds for 3 millisecond digits. (\<open>d < 2^63\<close> says that \<open>d\<close> is a \<^verbatim>\<open>time.Duration\<close>.)
\<close>

theorem format_parse_roundtrip:
  assumes "0 \<le> d" "d < 2 ^ 63" "d mod Millisecond = 0"
    and "sep \<noteq> []" "\<forall>c \<in> set sep. \<not> is_digit c \<and> c \<noteq> CHR '':''"
  shows "\<exists>s. formatDuration d sep 3 = Inr s \<and> parseDuration s sep 3 = Inr d"
proof -
  let ?h = "d div Hour" and ?m = "(d mod Hour) div Minute" and ?s = "(d mod Minute) div Second"
    and ?k = "nat ((d mod Second) div Millisecond)"
  let ?text = "two_digits ?h @ '':'' @ two_digits ?m @ '':'' @ two_digits ?s @ sep
      @ zero_pad 3 (nat_digits 10 ?k)"
  have fmt: "formatDuration d sep 3 = Inr ?text"
    using assms(1) by (rule formatDuration_three)
  have "d < 2 ^ 63 * Hour"
  proof -
    have "(2::int) ^ 63 * 1 \<le> 2 ^ 63 * Hour"
      using unit_positive(4) by (intro mult_left_mono) simp_all
    with assms(2) show ?thesis by simp
  qed
  then have h: "0 \<le> ?h" "?h < 2 ^ 63"
    using part_range [of d "2 ^ 63" Hour] assms(1) unit_positive(4) by simp_all
  have "0 \<le> d mod Hour" "d mod Hour < 60 * Minute"
    using unit_positive by (simp_all add: Hour_def)
  then have "0 \<le> ?m" "?m < 60"
    using part_range [of "d mod Hour" 60 Minute] unit_positive(3) by simp_all
  then have m: "0 \<le> ?m" "?m < 2 ^ 63" by simp_all
  have "0 \<le> d mod Minute" "d mod Minute < 60 * Second"
    using unit_positive by (simp_all add: Minute_def)
  then have "0 \<le> ?s" "?s < 60"
    using part_range [of "d mod Minute" 60 Second] unit_positive(2) by simp_all
  then have s: "0 \<le> ?s" "?s < 2 ^ 63" by simp_all
  have k: "?k < 1000" by (rule millis_lt_1000)
  have kpos: "0 \<le> (d mod Second) div Millisecond"
    using part_range(1) [of "d mod Second" 1000 Millisecond] unit_positive
    by (simp add: Second_def)
  note ph = two_digits_props [OF h] and pm = two_digits_props [OF m]
    and ps = two_digits_props [OF s] and pk = three_digits_props [OF k]
  have "parseDuration ?text sep 3 =
     Inr (wrap64 (int ?k * pow10_int (int 3 - int (length (zero_pad 3 (nat_digits 10 ?k))))
            * Millisecond + ?s * Second + ?m * Minute + ?h * Hour))"
    using assms(4,5) ph(2,3,1) pm(2,1) ps(2,3,1) pk(2) _ pk(1)
    by (rule parseDuration_plain) (simp add: pk(3))
  also have "int ?k * pow10_int (int 3 - int (length (zero_pad 3 (nat_digits 10 ?k))))
      = (d mod Second) div Millisecond"
    using kpos by (simp add: pk(3) pow10_int_def)
  also have "(d mod Second) div Millisecond * Millisecond + ?s * Second + ?m * Minute + ?h * Hour = d"
    using assms(3) by (rule duration_parts)
  also have "wrap64 d = d" using assms(1,2) by (rule wrap64_id)
  finally have "parseDuration ?text sep 3 = Inr d" .
  with fmt show ?thesis by blast
qed

theorem format_parse_roundtrip_witness:
  "0 \<le> 3723456 * Millisecond \<and> 3723456 * Millisecond < 2 ^ 63
   \<and> (3723456 * Millisecond) mod Millisecond = 0
   \<and> '','' \<noteq> [] \<and> \<not> is_digit (CHR '','') \<and> CHR '','' \<noteq> CHR '':''
   \<and> formatDuration (3723456 * Millisecond) '','' 3 = Inr ''01:02:03,456''
   \<and> parseDuration ''01:02:03,456'' '','' 3 = Inr (3723456 * Millisecond)"
proof -
  define d where "d = 3723456 * Millisecond"
  have hyp: "0 \<le> d" "d < 2 ^ 63" "d mod Millisecond = 0"
    by (simp_all add: d_def Millisecond_def)
  have sep: "'','' \<noteq> []" "\<forall>c \<in> set '',''. \<not> is_digit c \<and> c \<noteq> CHR '':''"
    by (simp_all add: is_digit_def)
  have parts: "d div Hour = 1" "(d mod Hour) div Minute = 2" "(d mod Minute) div Second = 3"
      "nat ((d mod Second) div Millisecond) = 456"
    by (simp_all add: d_def Millisecond_def Second_def Minute_def Hour_def)
  have fmt: "formatDuration d '','' 3 = Inr ''01:02:03,456''"
    by (simp add: formatDuration_three [OF hyp(1)] parts numeral_eval)
  from format_parse_roundtrip [OF hyp sep] fmt
  have "parseDuration ''01:02:03,456'' '','' 3 = Inr d" by auto
  with hyp sep fmt show ?thesis by (simp add: d_def)
qed


theorem formatDuration_total_witness:
  "0 \<le> 1500 * Millisecond
   \<and> formatDuration (1500 * Millisecond) '','' 0 = Inl SliceOutOfRange
   \<and> (\<exists>s. formatDuration (1500 * Millisecond) '','' 1 = Inr s)
   \<and> formatDuration (1500 * Millisecond) '','' 3 = Inr ''00:00:01,500''"
proof -
  define d where "d = 1500 * Millisecond"
  have pos: "0 \<le> d" by (simp add: d_def Millisecond_def)
  have parts: "d div Hour = 0" "(d mod Hour) div Minute = 0" "(d mod Minute) div Second = 1"
      "nat ((d mod Second) div Millisecond) = 500"
    by (simp_all add: d_def Millisecond_def Second_def Minute_def Hour_def)
  have three: "formatDuration d '','' 3 = Inr ''00:00:01,500''"
    by (simp add: formatDuration_three [OF pos] parts numeral_eval)
  from formatDuration_total_iff [OF pos, of "'',''" 0]
  have zero: "formatDuration d '','' 0 = Inl SliceOutOfRange" by simp
  from formatDuration_total_iff [OF pos, of "'',''" 1]
  have one: "\<exists>s. formatDuration d '','' 1 = Inr s" by simp
  from pos zero one three show ?thesis by (simp add: d_def)
qed

text \<open>
  C5 names a behaviour the code does not have. The fraction is multiplied by
  \<^verbatim>\<open>int(math.Pow10(numberOfMillisecondDigits - len(s)))\<close>; when the fraction has more digits
  than \<^verbatim>\<open>numberOfMillisecondDigits\<close> the exponent is negative, the power is below one and its
  conversion to \<^verbatim>\<open>int\<close> is 0, so the fraction is lost: with 2 digits, \<^verbatim>\<open>00:00:01.123\<close> is one
  second. The other parts of the claim hold at these inputs: a fraction of more than 3 bytes
  is refused, and \<^verbatim>\<open>5\<close> with 3 digits is 500 milliseconds.
\<close>

theorem parseDuration_long_fraction_lost:
  "parseDuration ''00:00:01.123'' ''.'' 2 = Inr Second
   \<and> parseDuration ''00:00:01.123'' ''.'' 3 = Inr (Second + 123 * Millisecond)
   \<and> parseDuration ''00:00:01.5'' ''.'' 3 = Inr (Second + 500 * Millisecond)
   \<and> parseDuration ''00:00:01.1234'' ''.'' 2 = Inl (InvalidMillisecondDigits ''00:00:01.1234'')"
proof -
  have sep: "''.'' \<noteq> []" "\<forall>c \<in> set ''.''. \<not> is_digit c \<and> c \<noteq> CHR '':''"
    by (simp_all add: is_digit_def)
  have zz: "\<forall>c \<in> set ''00''. is_digit c" "''00'' \<noteq> []" "Atoi ''00'' = Inr 0"
    and one: "\<forall>c \<in> set ''01''. is_digit c" "''01'' \<noteq> []" "Atoi ''01'' = Inr 1"
    by (simp_all add: is_digit_def Atoi_eval)
  have f123: "\<forall>c \<in> set ''123''. is_digit c" "length ''123'' \<le> 3" "Atoi ''123'' = Inr 123"
    and f5: "\<forall>c \<in> set ''5''. is_digit c" "length ''5'' \<le> 3" "Atoi ''5'' = Inr 5"
    by (simp_all add: is_digit_def Atoi_eval)
  note p123 = parseDuration_plain [OF sep zz zz(1,3) one f123]
  note p5 = parseDuration_plain [OF sep zz zz(1,3) one f5]
  have a: "parseDuration ''00:00:01.123'' ''.'' 2 = Inr Second"
    using p123 [of 2]
    by (simp add: pow10_int_def wrap64_def Second_def Millisecond_def)
  have b: "parseDuration ''00:00:01.123'' ''.'' 3 = Inr (Second + 123 * Millisecond)"
    using p123 [of 3]
    by (simp add: pow10_int_def wrap64_def Second_def Millisecond_def)
  have c: "parseDuration ''00:00:01.5'' ''.'' 3 = Inr (Second + 500 * Millisecond)"
    using p5 [of 3]
    by (simp add: pow10_int_def wrap64_def Second_def Millisecond_def)
  have "Split (''00:00:01'' @ ''.'' @ ''1234'') ''.'' = [''00:00:01'', ''1234'']"
    by (intro Split_two) simp_all
  then have split: "Split ''00:00:01.1234'' ''.'' = [''00:00:01'', ''1234'']" by simp
  have "TrimSpace ''1234'' = ''1234''"
    by (intro TrimSpace_digits) (simp add: is_digit_def)
  then have d: "parseDuration ''00:00:01.1234'' ''.'' 2
      = Inl (InvalidMillisecondDigits ''00:00:01.1234'')"
    by (simp add: parseDuration_fraction [OF split])
  from a b c d show ?thesis by simp
qed


subsection \<open>What Atoi accepts\<close>










section \<open>Fragment\<close>

text \<open>
  \<^verbatim>\<open>Fragment\<close> inserts into \<^verbatim>\<open>s.Items\<close> while a \<^verbatim>\<open>range\<close> loop runs over it, and it changes Items
  through the pointers the slice holds. What the loop reads then depends on whether
  \<^verbatim>\<open>append\<close> writes into the array the loop is reading, so this section models the store:
  \<open>heap\<close> holds the Items, an address is an index into it; \<open>items\<close> is the slice \<^verbatim>\<open>s.Items\<close>, a
  list of addresses; \<open>cap\<close> is the capacity of its array.
\<close>

record frag_state =
  heap :: "Item list"
  items :: "nat list"
  cap :: nat

text \<open>The Items of the document in the order of the slice.\<close>

definition view :: "frag_state \<Rightarrow> Item list" where
  "view st = map (\<lambda>a. heap st ! a) (items st)"

text \<open>
  \<^verbatim>\<open>s.Items = append(s.Items[:i], append([]*Item{newSub}, s.Items[i:]...)...)\<close>. The inner
  \<^verbatim>\<open>append\<close> builds a fresh array. The outer one writes into the array of \<^verbatim>\<open>s.Items\<close> when the
  capacity suffices, and then the loop sees the insertion; otherwise it allocates a new
  array and the loop goes on reading the old one, \<open>snap\<close>, as it was before this insertion.
  How much capacity a new array gets is the run-time system's choice: \<open>grow\<close>, given the old
  capacity and the length needed, is a parameter, and the new capacity is at least the
  length needed.
\<close>

definition insert_at ::
  "(nat \<Rightarrow> nat \<Rightarrow> nat) \<Rightarrow> nat \<Rightarrow> nat \<Rightarrow> nat list option \<Rightarrow> frag_state
    \<Rightarrow> nat list option \<times> frag_state" where
  "insert_at grow i newSub snap st =
     (let l = items st; l' = take i l @ newSub # drop i l in
      if length l + 1 \<le> cap st then (snap, st\<lparr>items := l'\<rparr>)
      else ((case snap of None \<Rightarrow> Some l | Some a0 \<Rightarrow> Some a0),
            st\<lparr>items := l', cap := max (length l + 1) (grow (cap st) (length l + 1))\<rparr>))"

text \<open>
  The inner loop of \<^verbatim>\<open>Fragment\<close> from index \<open>i\<close> on; \<open>n\<close> is the length \<^verbatim>\<open>s.Items\<close> had when the
  \<^verbatim>\<open>range\<close> began, \<open>snap\<close> is \<open>None\<close> while the loop reads the array of \<^verbatim>\<open>s.Items\<close> itself.
  \<^verbatim>\<open>newSub\<close> is a fresh Item, a copy of \<^verbatim>\<open>*sub\<close>.
\<close>

function frag_pass ::
  "(nat \<Rightarrow> nat \<Rightarrow> nat) \<Rightarrow> duration \<Rightarrow> duration \<Rightarrow> nat \<Rightarrow> nat \<Rightarrow> nat list option
    \<Rightarrow> frag_state \<Rightarrow> frag_state" where
  "frag_pass grow fragmentStartAt fragmentEndAt i n snap st =
     (if i < n then
        (let sub = (case snap of None \<Rightarrow> items st ! i | Some a0 \<Rightarrow> a0 ! i);
             newSub = length (heap st);
             h = heap st @ [heap st ! sub]
         in if StartAt (h ! sub) < fragmentStartAt \<and> EndAt (h ! sub) > fragmentStartAt then
              (case insert_at grow i newSub snap
                      (st\<lparr>heap := h[sub := (h ! sub)\<lparr>StartAt := fragmentStartAt\<rparr>,
                                    newSub := (h ! newSub)\<lparr>EndAt := fragmentStartAt\<rparr>]\<rparr>) of
                 (snap', st') \<Rightarrow> frag_pass grow fragmentStartAt fragmentEndAt (i + 1) n snap' st')
            else if StartAt (h ! sub) < fragmentEndAt \<and> EndAt (h ! sub) > fragmentEndAt then
              (case insert_at grow i newSub snap
                      (st\<lparr>heap := h[sub := (h ! sub)\<lparr>StartAt := fragmentEndAt\<rparr>,
                                    newSub := (h ! newSub)\<lparr>EndAt := fragmentEndAt\<rparr>]\<rparr>) of
                 (snap', st') \<Rightarrow> frag_pass grow fragmentStartAt fragmentEndAt (i + 1) n snap' st')
            else frag_pass grow fragmentStartAt fragmentEndAt (i + 1) n snap (st\<lparr>heap := h\<rparr>))
      else st)"
  by pat_completeness auto
termination
  by (relation "measure (\<lambda>(grow, fs, fe, i, n, snap, st). n - i)") auto

declare frag_pass.simps [simp del]

text \<open>
  The outer loop: one pass per fragment, while the fragment starts before the end of the Item
  at the last position. The two ends of the window are \<^verbatim>\<open>int64\<close> and advance by \<open>f\<close> with
  wrap-around. The loop need not end (a fragment duration of zero); \<open>None\<close> is the run that
  does not return.
\<close>

partial_function (option) frag_loop ::
  "(nat \<Rightarrow> nat \<Rightarrow> nat) \<Rightarrow> duration \<Rightarrow> duration \<Rightarrow> duration \<Rightarrow> frag_state \<Rightarrow> frag_state option"
where
  "frag_loop grow f fragmentStartAt fragmentEndAt st =
     (if fragmentStartAt < EndAt (heap st ! (items st ! (length (items st) - 1))) then
        frag_loop grow f (wrap64 (fragmentStartAt + f)) (wrap64 (fragmentEndAt + f))
          (frag_pass grow fragmentStartAt fragmentEndAt 0 (length (items st)) None st)
      else Some st)"

declare frag_loop.simps [code]

text \<open>\<^verbatim>\<open>Subtitles.Fragment\<close>; \<^verbatim>\<open>Order\<close> exchanges the pointers in the slice.\<close>

definition Fragment :: "(nat \<Rightarrow> nat \<Rightarrow> nat) \<Rightarrow> duration \<Rightarrow> frag_state \<Rightarrow> frag_state option" where
  "Fragment grow f st =
     (if length (items st) = 0 then Some st
      else case frag_loop grow f 0 f st of
        None \<Rightarrow> None
      | Some st' \<Rightarrow> Some (st'\<lparr>items := Order_by (\<lambda>a. StartAt (heap st' ! a)) (items st')\<rparr>))"

text \<open>A document in the store: the Items \<open>xs\<close> at the addresses \<open>0, 1, \<dots>\<close>, in a slice of capacity \<open>c\<close>.\<close>

definition store_of :: "Item list \<Rightarrow> nat \<Rightarrow> frag_state" where
  "store_of xs c = \<lparr>heap = xs, items = [0..<length xs], cap = c\<rparr>"

subsection \<open>Cutting an Item at the fragment boundaries\<close>

text \<open>
  What the specification describes: an Item whose interval strictly contains a boundary is replaced
  by an Item up to the boundary and an Item from the boundary on, which differ from it in
  nothing but the end and the start. \<open>pieces f x\<close> cuts \<open>x\<close> at every multiple of \<open>f\<close> strictly
  inside its interval, the least one first.
\<close>

definition next_boundary :: "duration \<Rightarrow> duration \<Rightarrow> duration" where
  "next_boundary f s = (s div f + 1) * f"

lemma next_boundary_gt: "0 < f \<Longrightarrow> s < next_boundary f s"
proof -
  assume f: "0 < f"
  have "s = (s div f) * f + s mod f" by simp
  moreover have "s mod f < f" using f by simp
  ultimately have "s < (s div f) * f + f" by linarith
  then show ?thesis by (simp add: next_boundary_def algebra_simps)
qed

lemma next_boundary_least:
  assumes "0 < f" "s < m * f"
  shows "next_boundary f s \<le> m * f"
proof -
  have "s div f < m"
  proof (rule ccontr)
    assume "\<not> s div f < m"
    then have "m \<le> s div f" by simp
    then have "m * f \<le> (s div f) * f" using assms(1) by (simp add: mult_right_mono)
    moreover have "s = (s div f) * f + s mod f" by simp
    moreover have "0 \<le> s mod f" using assms(1) by simp
    ultimately show False using assms(2) by linarith
  qed
  then have "s div f + 1 \<le> m" by simp
  then show ?thesis
    unfolding next_boundary_def using assms(1) by (simp add: mult_right_mono)
qed

lemma next_boundary_multiple: "\<exists>m. next_boundary f s = m * f"
  unfolding next_boundary_def by blast

function pieces :: "duration \<Rightarrow> Item \<Rightarrow> Item list" where
  "pieces f x =
     (if 0 < f \<and> next_boundary f (StartAt x) < EndAt x
      then x\<lparr>EndAt := next_boundary f (StartAt x)\<rparr>
           # pieces f (x\<lparr>StartAt := next_boundary f (StartAt x)\<rparr>)
      else [x])"
  by pat_completeness auto
termination
proof (relation "measure (\<lambda>(f, x). nat (EndAt x - StartAt x))")
  show "wf (measure (\<lambda>(f, x). nat (EndAt x - StartAt x)))" by simp
next
  fix f :: duration and x :: Item
  assume "0 < f \<and> next_boundary f (StartAt x) < EndAt x"
  then have "StartAt x < next_boundary f (StartAt x)" "next_boundary f (StartAt x) < EndAt x"
    using next_boundary_gt by simp_all
  then show "((f, x\<lparr>StartAt := next_boundary f (StartAt x)\<rparr>), (f, x))
      \<in> measure (\<lambda>(f, x). nat (EndAt x - StartAt x))"
    by simp
qed

declare pieces.simps [simp del]

text \<open>An Item strictly contains the instant \<open>c\<close>.\<close>

definition strad :: "duration \<Rightarrow> Item \<Rightarrow> bool" where
  "strad c x = (StartAt x < c \<and> c < EndAt x)"

lemma pieces_whole:
  assumes "0 < f" "\<forall>m. \<not> strad (m * f) x"
  shows "pieces f x = [x]"
proof -
  obtain m where m: "next_boundary f (StartAt x) = m * f"
    using next_boundary_multiple by blast
  have "StartAt x < m * f" using next_boundary_gt [OF assms(1), of "StartAt x"] m by simp
  with assms(2) have "\<not> m * f < EndAt x" by (auto simp: strad_def)
  then show ?thesis using m by (subst pieces.simps) simp
qed

lemma update_swap: "(x :: Item)\<lparr>EndAt := a, StartAt := b\<rparr> = x\<lparr>StartAt := b, EndAt := a\<rparr>"
  by (cases x) simp

lemma pieces_cut:
  "0 < f \<Longrightarrow> strad (m * f) x \<Longrightarrow>
   pieces f x = pieces f (x\<lparr>EndAt := m * f\<rparr>) @ pieces f (x\<lparr>StartAt := m * f\<rparr>)"
proof (induction f x rule: pieces.induct)
  case (1 f x)
  let ?b = "next_boundary f (StartAt x)"
  have s: "StartAt x < m * f" and e: "m * f < EndAt x"
    using "1.prems"(2) by (simp_all add: strad_def)
  have le: "?b \<le> m * f" using "1.prems"(1) s by (rule next_boundary_least)
  then have inside: "?b < EndAt x" using e by simp
  have unfold: "pieces f x = x\<lparr>EndAt := ?b\<rparr> # pieces f (x\<lparr>StartAt := ?b\<rparr>)"
    using "1.prems"(1) inside by (subst pieces.simps) simp
  show ?case
  proof (cases "?b = m * f")
    case True
    have "pieces f (x\<lparr>EndAt := m * f\<rparr>) = [x\<lparr>EndAt := m * f\<rparr>]"
      using True by (subst pieces.simps) simp
    then show ?thesis using unfold True by simp
  next
    case False
    with le have lt: "?b < m * f" by simp
    have "strad (m * f) (x\<lparr>StartAt := ?b\<rparr>)"
      using lt e by (simp add: strad_def)
    from "1.IH" [OF _ "1.prems"(1) this] "1.prems"(1) inside
    have ih: "pieces f (x\<lparr>StartAt := ?b\<rparr>)
        = pieces f (x\<lparr>StartAt := ?b, EndAt := m * f\<rparr>) @ pieces f (x\<lparr>StartAt := m * f\<rparr>)"
      by simp
    have "pieces f (x\<lparr>EndAt := m * f\<rparr>)
        = x\<lparr>EndAt := ?b\<rparr> # pieces f (x\<lparr>StartAt := ?b, EndAt := m * f\<rparr>)"
      using "1.prems"(1) lt by (subst pieces.simps) (simp add: update_swap)
    then show ?thesis using unfold ih by simp
  qed
qed

subsection \<open>A pass in the store is a sequence of cuts\<close>

text \<open>Every address of the slice is in the store, and no address stands twice in the slice.\<close>

definition wf_store :: "frag_state \<Rightarrow> bool" where
  "wf_store st = ((\<forall>a \<in> set (items st). a < length (heap st)) \<and> distinct (items st))"

text \<open>
  What the \<^verbatim>\<open>range\<close> still has to read, from index \<open>i\<close> to \<open>n\<close>, is there: in the slice itself,
  or in the old array, each of whose addresses is then in the slice at the same index or
  further on.
\<close>

definition range_ok :: "nat \<Rightarrow> nat \<Rightarrow> nat list option \<Rightarrow> frag_state \<Rightarrow> bool" where
  "range_ok i n snap st =
     (case snap of
        None \<Rightarrow> n \<le> length (items st)
      | Some a0 \<Rightarrow> n \<le> length a0
          \<and> (\<forall>j. i \<le> j \<and> j < n \<longrightarrow> (\<exists>p. j \<le> p \<and> p < length (items st) \<and> items st ! p = a0 ! j)))"

lemma view_more_heap:
  assumes "wf_store st"
  shows "view (st\<lparr>heap := heap st @ ys\<rparr>) = view st"
  using assms by (simp add: view_def wf_store_def nth_append)

definition read_at :: "nat list option \<Rightarrow> frag_state \<Rightarrow> nat \<Rightarrow> nat" where
  "read_at snap st i = (case snap of None \<Rightarrow> items st ! i | Some a0 \<Rightarrow> a0 ! i)"

lemma range_ok_read:
  assumes "range_ok i n snap st" "i < n"
  shows "read_at snap st i \<in> set (items st)"
proof (cases snap)
  case None
  then show ?thesis using assms by (simp add: range_ok_def read_at_def)
next
  case (Some a0)
  then obtain p where "p < length (items st)" "items st ! p = a0 ! i"
    using assms by (auto simp: range_ok_def)
  then show ?thesis using Some by (metis nth_mem read_at_def option.simps(5))
qed

lemma range_ok_Suc:
  assumes "range_ok i n snap st"
  shows "range_ok (Suc i) n snap (st\<lparr>heap := h\<rparr>)"
  using assms by (auto simp: range_ok_def split: option.splits)

lemma wf_store_more_heap:
  assumes "wf_store st"
  shows "wf_store (st\<lparr>heap := heap st @ ys\<rparr>)"
  using assms by (auto simp: wf_store_def)

text \<open>An iteration on an Item that no boundary cuts only leaves a copy behind.\<close>

lemma frag_pass_skip:
  assumes "i < n" "wf_store st" "range_ok i n snap st"
    and "\<not> strad fs (heap st ! read_at snap st i)"
    and "\<not> strad fe (heap st ! read_at snap st i)"
  shows "frag_pass grow fs fe i n snap st
       = frag_pass grow fs fe (Suc i) n snap
           (st\<lparr>heap := heap st @ [heap st ! read_at snap st i]\<rparr>)"
proof -
  let ?a = "read_at snap st i"
  have "?a \<in> set (items st)" using assms(3,1) by (rule range_ok_read)
  then have lt: "?a < length (heap st)" using assms(2) by (simp add: wf_store_def)
  have r: "(case snap of None \<Rightarrow> items st ! i | Some a0 \<Rightarrow> a0 ! i) = ?a"
    by (simp add: read_at_def)
  have e: "(heap st @ [heap st ! ?a]) ! ?a = heap st ! ?a" using lt by (simp add: nth_append)
  have n1: "(StartAt (heap st ! ?a) < fs \<and> fs < EndAt (heap st ! ?a)) = False"
    and n2: "(StartAt (heap st ! ?a) < fe \<and> fe < EndAt (heap st ! ?a)) = False"
    using assms(4,5) by (simp_all add: strad_def)
  show ?thesis
    using assms(1)
    by (subst frag_pass.simps) (simp add: r e Let_def n1 n2)
qed

lemma frag_pass_idle:
  assumes "wf_store st" "range_ok i n snap st"
    and "\<forall>x \<in> set (view st). \<not> strad fs x \<and> \<not> strad fe x"
  shows "wf_store (frag_pass grow fs fe i n snap st)
       \<and> view (frag_pass grow fs fe i n snap st) = view st"
  using assms
proof (induction "n - i" arbitrary: i st)
  case 0
  then have "\<not> i < n" by simp
  then have "frag_pass grow fs fe i n snap st = st" by (subst frag_pass.simps) simp
  then show ?case using "0.prems" by simp
next
  case (Suc k)
  then have lt: "i < n" by simp
  let ?a = "read_at snap st i"
  let ?st = "st\<lparr>heap := heap st @ [heap st ! ?a]\<rparr>"
  have mem: "?a \<in> set (items st)" using Suc.prems(2) lt by (rule range_ok_read)
  then have "heap st ! ?a \<in> set (view st)" by (simp add: view_def)
  then have ns: "\<not> strad fs (heap st ! ?a)" "\<not> strad fe (heap st ! ?a)"
    using Suc.prems(3) by auto
  have step: "frag_pass grow fs fe i n snap st = frag_pass grow fs fe (Suc i) n snap ?st"
    using lt Suc.prems(1,2) ns by (rule frag_pass_skip)
  have v: "view ?st = view st" using Suc.prems(1) by (rule view_more_heap)
  have "wf_store (frag_pass grow fs fe (Suc i) n snap ?st)
       \<and> view (frag_pass grow fs fe (Suc i) n snap ?st) = view ?st"
  proof (rule Suc.hyps(1))
    show "k = n - Suc i" using Suc.hyps(2) by simp
    show "wf_store ?st" using Suc.prems(1) by (rule wf_store_more_heap)
    show "range_ok (Suc i) n snap ?st" using Suc.prems(2) by (rule range_ok_Suc)
    show "\<forall>x \<in> set (view ?st). \<not> strad fs x \<and> \<not> strad fe x"
      using Suc.prems(3) by (simp only: v)
  qed
  then show ?case by (simp only: step v)
qed

text \<open>One cut in the store, at the index the \<^verbatim>\<open>range\<close> stands at, the slice still being read itself.\<close>

lemma store_cut:
  assumes wf: "wf_store st" and i: "i < length (items st)"
    and a: "a = items st ! i" and x: "x = heap st ! a"
    and h: "h = heap st @ [x]"
    and st1: "st1 = st\<lparr>heap := h[a := x\<lparr>StartAt := c\<rparr>, length (heap st) := x\<lparr>EndAt := c\<rparr>]\<rparr>"
    and res: "insert_at grow i (length (heap st)) None st1 = (snap', st')"
    and n: "n \<le> length (items st)"
  shows "wf_store st'"
    and "view st' = take i (view st) @ x\<lparr>EndAt := c\<rparr> # x\<lparr>StartAt := c\<rparr> # drop (Suc i) (view st)"
    and "range_ok (Suc i) n snap' st'"
proof -
  let ?new = "length (heap st)"
  obtain A D where l: "items st = A @ a # D" and lenA: "length A = i"
  proof -
    have "items st = take i (items st) @ a # drop (Suc i) (items st)"
      unfolding a by (rule id_take_nth_drop [OF i])
    moreover have "length (take i (items st)) = i" using i by simp
    ultimately show thesis by (rule that)
  qed
  have valid: "\<forall>b \<in> set (A @ a # D). b < ?new" using wf by (simp add: wf_store_def l)
  have alt: "a < ?new" using valid by simp
  have dist: "distinct (A @ a # D)" using wf by (simp add: wf_store_def l)
  then have notin: "a \<notin> set A" "a \<notin> set D" by auto
  let ?h' = "h[a := x\<lparr>StartAt := c\<rparr>, ?new := x\<lparr>EndAt := c\<rparr>]"
  have lenh: "length h = Suc ?new" using h by simp
  have at_a: "?h' ! a = x\<lparr>StartAt := c\<rparr>" using alt h by simp
  have at_new: "?h' ! ?new = x\<lparr>EndAt := c\<rparr>" using h by simp
  have other: "?h' ! b = heap st ! b" if "b < ?new" "b \<noteq> a" for b
    using that h by (simp add: nth_append)
  have tk: "take i (items st) = A" and dr: "drop i (items st) = a # D"
    using lenA by (simp_all add: l)
  have items': "items st' = A @ ?new # a # D"
    using res st1 tk dr by (auto simp: insert_at_def Let_def split: if_splits)
  have heap': "heap st' = ?h'"
    using res st1 by (auto simp: insert_at_def Let_def split: if_splits)
  have new_notin: "?new \<notin> set (A @ a # D)" using valid by blast
  show "wf_store st'"
  proof -
    have "\<forall>b \<in> set (items st'). b < length (heap st')"
      using valid by (auto simp: items' heap' lenh less_Suc_eq)
    moreover have "distinct (items st')"
      using dist new_notin by (auto simp: items')
    ultimately show ?thesis by (simp add: wf_store_def)
  qed
  have same: "map ((!) ?h') C = map ((!) (heap st)) C"
    if "set C \<subseteq> set (A @ a # D)" "a \<notin> set C" for C
  proof (rule map_cong [OF refl])
    fix b assume b: "b \<in> set C"
    then have "b < ?new" using that(1) valid by blast
    moreover have "b \<noteq> a" using b that(2) by auto
    ultimately show "?h' ! b = heap st ! b" by (rule other)
  qed
  have mapA: "map ((!) ?h') A = map ((!) (heap st)) A" using notin(1) by (intro same) auto
  have mapD: "map ((!) ?h') D = map ((!) (heap st)) D" using notin(2) by (intro same) auto
  let ?VA = "map ((!) (heap st)) A" and ?VD = "map ((!) (heap st)) D"
  have v: "view st = ?VA @ x # ?VD"
    unfolding view_def l x by simp
  have tv: "take i (view st) = ?VA" and dv: "drop (Suc i) (view st) = ?VD"
    using lenA by (simp_all add: v)
  have "view st' = map ((!) ?h') A @ ?h' ! ?new # ?h' ! a # map ((!) ?h') D"
    unfolding view_def items' heap' by simp
  then show "view st' = take i (view st) @ x\<lparr>EndAt := c\<rparr> # x\<lparr>StartAt := c\<rparr> # drop (Suc i) (view st)"
    by (simp only: mapA mapD at_a at_new tv dv)
  have snap': "snap' = None \<or> snap' = Some (A @ a # D)"
    using res st1 l by (auto simp: insert_at_def Let_def split: if_splits)
  show "range_ok (Suc i) n snap' st'"
  proof (cases snap')
    case None
    then show ?thesis using n by (simp add: range_ok_def items' l)
  next
    case (Some a0)
    then have a0: "a0 = A @ a # D" using snap' by simp
    have "\<exists>p\<ge>j. p < length (items st') \<and> items st' ! p = a0 ! j"
      if "Suc i \<le> j" "j < n" for j
    proof (intro exI conjI)
      show "j \<le> Suc j" by simp
      show "Suc j < length (items st')" using that n by (simp add: items' l)
      show "items st' ! Suc j = a0 ! j"
        using that lenA by (simp add: items' a0 nth_append nth_Cons')
    qed
    then show ?thesis using Some n by (simp add: range_ok_def a0 l)
  qed
qed

text \<open>The iteration that cuts at the end of the window.\<close>

lemma frag_pass_cut:
  assumes i: "i < n" and n: "n \<le> length (items st)" and wf: "wf_store st"
    and x: "x = heap st ! (items st ! i)" and nfs: "\<not> strad fs x" and sfe: "strad fe x"
  obtains snap' st' where
    "frag_pass grow fs fe i n None st = frag_pass grow fs fe (Suc i) n snap' st'"
    "wf_store st'" "range_ok (Suc i) n snap' st'"
    "view st' = take i (view st) @ x\<lparr>EndAt := fe\<rparr> # x\<lparr>StartAt := fe\<rparr> # drop (Suc i) (view st)"
proof -
  define a where "a = items st ! i"
  define h where "h = heap st @ [x]"
  define st1 where
    "st1 = st\<lparr>heap := h[a := x\<lparr>StartAt := fe\<rparr>, length (heap st) := x\<lparr>EndAt := fe\<rparr>]\<rparr>"
  obtain snap' st' where res: "insert_at grow i (length (heap st)) None st1 = (snap', st')"
    by (cases "insert_at grow i (length (heap st)) None st1") blast
  have il: "i < length (items st)" using i n by simp
  have xa: "x = heap st ! a" using x a_def by simp
  have alt: "a < length (heap st)" using wf il by (simp add: wf_store_def a_def)
  have e: "h ! a = x" using alt xa by (simp add: h_def nth_append)
  have e2: "h ! length (heap st) = x" by (simp add: h_def)
  have n1: "(StartAt x < fs \<and> fs < EndAt x) = False"
    and n2: "(StartAt x < fe \<and> fe < EndAt x) = True"
    using nfs sfe by (simp_all add: strad_def)
  have "frag_pass grow fs fe i n None st
      = (case insert_at grow i (length (heap st)) None st1 of
           (snap', st') \<Rightarrow> frag_pass grow fs fe (i + 1) n snap' st')"
    using i
    by (subst frag_pass.simps)
       (simp add: Let_def a_def [symmetric] xa [symmetric] h_def [symmetric] e e2 n1 n2
                  st1_def [symmetric])
  then have step: "frag_pass grow fs fe i n None st = frag_pass grow fs fe (Suc i) n snap' st'"
    by (simp add: res)
  note sc = store_cut [OF wf il a_def xa h_def st1_def res n]
  show thesis using step sc(1,3,2) by (rule that)
qed

text \<open>
  A pass over a slice in which one Item only, at index \<open>length A\<close>, is cut by the end of the
  window, and none by its start: the Item is found, cut once, and the rest is left as it is.
\<close>

lemma frag_pass_search:
  assumes "wf_store st" "n \<le> length (items st)" "view st = A @ x # D"
    and "i \<le> length A" "length A < n"
    and "\<forall>y \<in> set A \<union> set D. \<not> strad fs y \<and> \<not> strad fe y"
    and "\<not> strad fs x" "strad fe x" "fs < fe"
  shows "wf_store (frag_pass grow fs fe i n None st)
       \<and> view (frag_pass grow fs fe i n None st)
           = A @ x\<lparr>EndAt := fe\<rparr> # x\<lparr>StartAt := fe\<rparr> # D"
  using assms(1,2,3,4)
proof (induction "length A - i" arbitrary: i st)
  case 0
  then have iA: "i = length A" by simp
  have i: "i < n" using iA assms(5) by simp
  have il: "i < length (items st)" using i "0.prems"(2) by simp
  have "view st ! i = x" using "0.prems"(3) iA by simp
  then have x: "x = heap st ! (items st ! i)" using il by (simp add: view_def)
  obtain snap' st' where
    step: "frag_pass grow fs fe i n None st = frag_pass grow fs fe (Suc i) n snap' st'"
    and wf': "wf_store st'" and ro: "range_ok (Suc i) n snap' st'"
    and v': "view st' = take i (view st) @ x\<lparr>EndAt := fe\<rparr> # x\<lparr>StartAt := fe\<rparr> # drop (Suc i) (view st)"
    using frag_pass_cut [OF i "0.prems"(2,1) x assms(7,8)] by blast
  have v'': "view st' = A @ x\<lparr>EndAt := fe\<rparr> # x\<lparr>StartAt := fe\<rparr> # D"
    using v' "0.prems"(3) iA by simp
  have sx: "StartAt x < fe" "fe < EndAt x" "fs \<le> StartAt x"
    using assms(7,8,9) by (auto simp: strad_def)
  have "\<not> strad fs (x\<lparr>EndAt := fe\<rparr>)" "\<not> strad fe (x\<lparr>EndAt := fe\<rparr>)"
    "\<not> strad fs (x\<lparr>StartAt := fe\<rparr>)" "\<not> strad fe (x\<lparr>StartAt := fe\<rparr>)"
    using sx assms(9) by (simp_all add: strad_def)
  then have clean: "\<forall>y \<in> set (view st'). \<not> strad fs y \<and> \<not> strad fe y"
    using assms(6) by (auto simp: v'')
  have "wf_store (frag_pass grow fs fe (Suc i) n snap' st')
      \<and> view (frag_pass grow fs fe (Suc i) n snap' st') = view st'"
    using wf' ro clean by (rule frag_pass_idle)
  then show ?case by (simp only: step v'')
next
  case (Suc k)
  then have lt: "i < length A" by simp
  then have i: "i < n" using assms(5) by simp
  have il: "i < length (items st)" using i Suc.prems(2) by simp
  let ?a = "read_at None st i"
  let ?st = "st\<lparr>heap := heap st @ [heap st ! ?a]\<rparr>"
  have "view st ! i = A ! i" using Suc.prems(3) lt by (simp add: nth_append)
  moreover have "view st ! i = heap st ! ?a" using il by (simp add: view_def read_at_def)
  ultimately have "heap st ! ?a \<in> set A" using lt by simp
  then have ns: "\<not> strad fs (heap st ! ?a)" "\<not> strad fe (heap st ! ?a)"
    using assms(6) by auto
  have ro: "range_ok i n None st" using Suc.prems(2) by (simp add: range_ok_def)
  have step: "frag_pass grow fs fe i n None st = frag_pass grow fs fe (Suc i) n None ?st"
    using i Suc.prems(1) ro ns by (rule frag_pass_skip)
  have v: "view ?st = view st" using Suc.prems(1) by (rule view_more_heap)
  have "wf_store (frag_pass grow fs fe (Suc i) n None ?st)
      \<and> view (frag_pass grow fs fe (Suc i) n None ?st)
          = A @ x\<lparr>EndAt := fe\<rparr> # x\<lparr>StartAt := fe\<rparr> # D"
  proof (rule Suc.hyps(1))
    show "k = length A - Suc i" using Suc.hyps(2) by simp
    show "wf_store ?st" using Suc.prems(1) by (rule wf_store_more_heap)
    show "n \<le> length (items ?st)" using Suc.prems(2) by simp
    show "view ?st = A @ x # D" using Suc.prems(3) by (simp only: v)
    show "Suc i \<le> length A" using lt by simp
  qed
  then show ?case by (simp only: step)
qed

subsection \<open>Documents whose Items follow one another\<close>

definition before :: "Item \<Rightarrow> Item \<Rightarrow> bool" where
  "before y z = (EndAt y \<le> StartAt z)"

text \<open>Each Item lasts, and ends before the next one starts.\<close>

definition tidy :: "Item list \<Rightarrow> bool" where
  "tidy V = (sorted_wrt before V \<and> (\<forall>x \<in> set V. StartAt x < EndAt x))"

text \<open>What a pass does to such a document: it cuts the one Item that the end of the window is in.\<close>

definition pass_rel :: "duration \<Rightarrow> Item list \<Rightarrow> Item list \<Rightarrow> bool" where
  "pass_rel fe V V' =
     ((V' = V \<and> (\<forall>x \<in> set V. \<not> strad fe x))
      \<or> (\<exists>A x D. V = A @ x # D \<and> strad fe x
            \<and> V' = A @ x\<lparr>EndAt := fe\<rparr> # x\<lparr>StartAt := fe\<rparr> # D))"

lemma tidy_parts:
  assumes "tidy (A @ x # D)"
  shows "\<forall>y \<in> set A. EndAt y \<le> StartAt x" "\<forall>z \<in> set D. EndAt x \<le> StartAt z"
    "StartAt x < EndAt x"
  using assms by (auto simp: tidy_def sorted_wrt_append before_def)

lemma tidy_cut:
  assumes "tidy (A @ x # D)" "strad c x"
  shows "tidy (A @ x\<lparr>EndAt := c\<rparr> # x\<lparr>StartAt := c\<rparr> # D)"
proof -
  have s: "StartAt x < c" "c < EndAt x" using assms(2) by (simp_all add: strad_def)
  have 1: "sorted_wrt before A" "sorted_wrt before D"
    "\<forall>y \<in> set A. \<forall>z \<in> set D. before y z"
    "\<forall>y \<in> set A. before y x" "\<forall>z \<in> set D. before x z"
    "\<forall>y \<in> set A \<union> set D. StartAt y < EndAt y"
    using assms(1) by (auto simp: tidy_def sorted_wrt_append)
  have 2: "\<forall>y \<in> set A. before y (x\<lparr>EndAt := c\<rparr>)" "\<forall>y \<in> set A. before y (x\<lparr>StartAt := c\<rparr>)"
    using 1(4) s by (auto simp: before_def)
  have 3: "\<forall>z \<in> set D. before (x\<lparr>EndAt := c\<rparr>) z" "\<forall>z \<in> set D. before (x\<lparr>StartAt := c\<rparr>) z"
    using 1(5) s by (auto simp: before_def)
  have 4: "before (x\<lparr>EndAt := c\<rparr>) (x\<lparr>StartAt := c\<rparr>)" by (simp add: before_def)
  have "sorted_wrt before (A @ x\<lparr>EndAt := c\<rparr> # x\<lparr>StartAt := c\<rparr> # D)"
    using 1(1,2,3) 2 3 4 by (auto simp: sorted_wrt_append)
  moreover have "\<forall>y \<in> set (A @ x\<lparr>EndAt := c\<rparr> # x\<lparr>StartAt := c\<rparr> # D). StartAt y < EndAt y"
    using 1(6) s by auto
  ultimately show ?thesis by (simp only: tidy_def simp_thms)
qed

lemma tidy_only_one:
  assumes "tidy (A @ x # D)" "strad c x"
  shows "\<forall>y \<in> set A \<union> set D. \<not> strad c y"
proof -
  have s: "StartAt x < c" "c < EndAt x" using assms(2) by (simp_all add: strad_def)
  note p = tidy_parts [OF assms(1)]
  show ?thesis using p(1,2) s by (fastforce simp: strad_def)
qed

lemma tidy_last_max:
  assumes "tidy V" "x \<in> set V"
  shows "EndAt x \<le> EndAt (last V)"
proof (cases "x = last V")
  case True
  then show ?thesis by simp
next
  case False
  have ne: "V \<noteq> []" using assms(2) by auto
  then have V: "V = butlast V @ [last V]" by simp
  then have "x \<in> set (butlast V)" using assms(2) False
    by (metis Un_iff empty_iff empty_set set_ConsD set_append)
  moreover have "tidy (butlast V @ last V # [])" using assms(1) V by simp
  ultimately have "EndAt x \<le> StartAt (last V)" "StartAt (last V) < EndAt (last V)"
    using tidy_parts [of "butlast V" "last V" "[]"] by auto
  then show ?thesis by simp
qed

lemma pass_rel_tidy:
  assumes "pass_rel fe V V'" "tidy V"
  shows "tidy V'"
  using assms unfolding pass_rel_def by (auto intro: tidy_cut)

lemma pass_rel_done:
  assumes "pass_rel fe V V'" "tidy V"
  shows "\<forall>x \<in> set V'. \<not> strad fe x"
  using assms(1) unfolding pass_rel_def
proof (elim disjE exE conjE)
  fix A x D
  assume V: "V = A @ x # D" and s: "strad fe x"
    and V': "V' = A @ x\<lparr>EndAt := fe\<rparr> # x\<lparr>StartAt := fe\<rparr> # D"
  have "\<forall>y \<in> set A \<union> set D. \<not> strad fe y"
    using assms(2) s unfolding V by (rule tidy_only_one)
  moreover have "\<not> strad fe (x\<lparr>EndAt := fe\<rparr>)" "\<not> strad fe (x\<lparr>StartAt := fe\<rparr>)"
    by (simp_all add: strad_def)
  ultimately show ?thesis by (auto simp: V')
qed simp

lemma pass_rel_keeps:
  assumes "pass_rel fe V V'" "\<forall>x \<in> set V. \<not> strad c x"
  shows "\<forall>x \<in> set V'. \<not> strad c x"
  using assms(1) unfolding pass_rel_def
proof (elim disjE exE conjE)
  fix A x D
  assume V: "V = A @ x # D" and s: "strad fe x"
    and V': "V' = A @ x\<lparr>EndAt := fe\<rparr> # x\<lparr>StartAt := fe\<rparr> # D"
  have x: "\<not> strad c x" and r: "\<forall>y \<in> set A \<union> set D. \<not> strad c y"
    using assms(2) by (auto simp: V)
  have "\<not> strad c (x\<lparr>EndAt := fe\<rparr>)" "\<not> strad c (x\<lparr>StartAt := fe\<rparr>)"
    using x s by (auto simp: strad_def)
  then show ?thesis using r by (auto simp: V')
qed (use assms(2) in simp)

lemma pass_rel_last:
  assumes "pass_rel fe V V'" "V \<noteq> []"
  shows "V' \<noteq> [] \<and> EndAt (last V') = EndAt (last V)"
  using assms unfolding pass_rel_def
  by (elim disjE exE conjE) (simp, cases rule: rev_cases, auto)

lemma pass_rel_pieces:
  assumes "pass_rel (m * f) V V'" "0 < f"
  shows "concat (map (pieces f) V') = concat (map (pieces f) V)"
  using assms(1) unfolding pass_rel_def
proof (elim disjE exE conjE)
  fix A x D
  assume V: "V = A @ x # D" and s: "strad (m * f) x"
    and V': "V' = A @ x\<lparr>EndAt := m * f\<rparr> # x\<lparr>StartAt := m * f\<rparr> # D"
  show ?thesis unfolding V V' using pieces_cut [OF assms(2) s] by simp
qed simp

subsection \<open>The passes, one after the other\<close>

lemma frag_pass_result:
  assumes wf: "wf_store st" and t: "tidy (view st)"
    and nfs: "\<forall>x \<in> set (view st). \<not> strad fs x" and lt: "fs < fe"
  shows "wf_store (frag_pass grow fs fe 0 (length (items st)) None st)
       \<and> pass_rel fe (view st) (view (frag_pass grow fs fe 0 (length (items st)) None st))"
proof (cases "\<exists>x \<in> set (view st). strad fe x")
  case False
  then have clean: "\<forall>x \<in> set (view st). \<not> strad fs x \<and> \<not> strad fe x" using nfs by simp
  have ro: "range_ok 0 (length (items st)) None st" by (simp add: range_ok_def)
  have "wf_store (frag_pass grow fs fe 0 (length (items st)) None st)
      \<and> view (frag_pass grow fs fe 0 (length (items st)) None st) = view st"
    using wf ro clean by (rule frag_pass_idle)
  then show ?thesis using False by (simp add: pass_rel_def)
next
  case True
  then obtain x where "x \<in> set (view st)" and s: "strad fe x" by blast
  then obtain A D where V: "view st = A @ x # D" by (meson split_list)
  have tV: "tidy (A @ x # D)" using t by (simp only: V)
  have one: "\<forall>y \<in> set A \<union> set D. \<not> strad fe y" using tV s by (rule tidy_only_one)
  have clean: "\<forall>y \<in> set A \<union> set D. \<not> strad fs y \<and> \<not> strad fe y"
    using one nfs by (auto simp: V)
  have nx: "\<not> strad fs x" using nfs by (simp add: V)
  have len: "length (items st) = length (view st)" by (simp add: view_def)
  have lA: "length A < length (items st)" by (simp add: len V)
  have "wf_store (frag_pass grow fs fe 0 (length (items st)) None st)
      \<and> view (frag_pass grow fs fe 0 (length (items st)) None st)
          = A @ x\<lparr>EndAt := fe\<rparr> # x\<lparr>StartAt := fe\<rparr> # D"
    using wf _ V _ lA clean nx s lt by (rule frag_pass_search) simp_all
  then show ?thesis using V s by (auto simp: pass_rel_def)
qed

lemma last_view:
  assumes "view st \<noteq> []"
  shows "heap st ! (items st ! (length (items st) - Suc 0)) = last (view st)"
proof -
  have "items st \<noteq> []" using assms by (auto simp: view_def)
  then show ?thesis by (simp add: view_def last_map last_conv_nth)
qed

lemma tidy_whole:
  assumes "0 < f" "tidy V" "\<forall>x \<in> set V. \<forall>m \<le> k. \<not> strad (m * f) x"
    and "EndAt (last V) \<le> k * f"
  shows "concat (map (pieces f) V) = V"
proof -
  have "pieces f x = [x]" if x: "x \<in> set V" for x
  proof (rule pieces_whole [OF assms(1)], rule allI)
    fix m :: int
    show "\<not> strad (m * f) x"
    proof (cases "m \<le> k")
      case True
      then show ?thesis using assms(3) x by simp
    next
      case False
      then have "k * f \<le> m * f" using assms(1) by (simp add: mult_right_mono)
      moreover have "EndAt x \<le> EndAt (last V)" using assms(2) x by (rule tidy_last_max)
      ultimately show ?thesis using assms(4) by (simp add: strad_def)
    qed
  qed
  moreover have "(\<And>x. x \<in> set W \<Longrightarrow> pieces f x = [x]) \<Longrightarrow> concat (map (pieces f) W) = W" for W
    by (induction W) simp_all
  ultimately show ?thesis by blast
qed

lemma frag_loop_returns:
  assumes "0 < f" "wf_store st" "tidy (view st)" "view st \<noteq> []"
    and "\<forall>x \<in> set (view st). \<forall>m \<le> int k. \<not> strad (m * f) x"
    and "EndAt (last (view st)) + 2 * f \<le> 2 ^ 63"
  shows "\<exists>st'. frag_loop grow f (int k * f) (int k * f + f) st = Some st'
           \<and> wf_store st' \<and> tidy (view st')
           \<and> view st' = concat (map (pieces f) (view st))"
  using assms(2-)
proof (induction "nat (EndAt (last (view st)) - int k * f)" arbitrary: k st rule: less_induct)
  case less
  let ?E = "EndAt (last (view st))"
  note lv = last_view [OF less.prems(3)]
  show ?case
  proof (cases "int k * f < ?E")
    case False
    then have "frag_loop grow f (int k * f) (int k * f + f) st = Some st"
      by (subst frag_loop.simps) (simp add: lv)
    moreover have le: "EndAt (last (view st)) \<le> int k * f" using False by (rule leI)
    have "concat (map (pieces f) (view st)) = view st"
      using assms(1) less.prems(2,4) le by (rule tidy_whole)
    ultimately show ?thesis using less.prems(1,2) by simp
  next
    case True
    let ?st = "frag_pass grow (int k * f) (int k * f + f) 0 (length (items st)) None st"
    have nfs: "\<forall>x \<in> set (view st). \<not> strad (int k * f) x" using less.prems(4) by simp
    have lt: "int k * f < int k * f + f" using assms(1) by simp
    have pr: "wf_store ?st \<and> pass_rel (int k * f + f) (view st) (view ?st)"
      using less.prems(1,2) nfs lt by (rule frag_pass_result)
    then have wf': "wf_store ?st" and rel: "pass_rel (int k * f + f) (view st) (view ?st)"
      by simp_all
    have fe: "int k * f + f = int (Suc k) * f" by (simp add: algebra_simps)
    have kf0: "0 \<le> int k * f" using assms(1) by simp
    have b: "int k * f + f + f < 2 ^ 63" using True less.prems(5) by linarith
    have w1: "wrap64 (int k * f + f) = int k * f + f"
      using kf0 assms(1) b by (intro wrap64_id) linarith+
    have w2: "wrap64 (int k * f + f + f) = int k * f + f + f"
      using kf0 assms(1) b by (intro wrap64_id) linarith+
    have t': "tidy (view ?st)" using rel less.prems(2) by (rule pass_rel_tidy)
    have l': "view ?st \<noteq> [] \<and> EndAt (last (view ?st)) = ?E"
      using rel less.prems(3) by (rule pass_rel_last)
    have fin: "\<forall>x \<in> set (view ?st). \<not> strad (int (Suc k) * f) x"
      using rel less.prems(2) unfolding fe by (rule pass_rel_done)
    have keep: "\<forall>x \<in> set (view ?st). \<not> strad (m * f) x" if "m \<le> int k" for m
    proof (rule pass_rel_keeps [OF rel])
      show "\<forall>x \<in> set (view st). \<not> strad (m * f) x" using less.prems(4) that by simp
    qed
    have inv: "\<forall>x \<in> set (view ?st). \<forall>m \<le> int (Suc k). \<not> strad (m * f) x"
    proof (intro ballI allI impI)
      fix x m assume x: "x \<in> set (view ?st)" and m: "m \<le> int (Suc k)"
      show "\<not> strad (m * f) x"
      proof (cases "m \<le> int k")
        case True
        then show ?thesis using keep x by simp
      next
        case False
        then have "m = int (Suc k)" using m by simp
        then show ?thesis using fin x by simp
      qed
    qed
    have w1': "wrap64 (int (Suc k) * f) = int (Suc k) * f"
      and w2': "wrap64 (int (Suc k) * f + f) = int (Suc k) * f + f"
      using w1 w2 by (simp_all only: fe)
    have b': "EndAt (last (view ?st)) + 2 * f \<le> 2 ^ 63"
      using l' less.prems(5) by (simp only:)
    have smaller: "nat (EndAt (last (view ?st)) - int (Suc k) * f) < nat (?E - int k * f)"
      using True assms(1) l' by (simp add: algebra_simps)
    have "\<exists>st'. frag_loop grow f (int (Suc k) * f) (int (Suc k) * f + f) ?st = Some st'
           \<and> wf_store st' \<and> tidy (view st')
           \<and> view st' = concat (map (pieces f) (view ?st))"
      using smaller wf' t' _ inv b' by (rule less.hyps) (simp add: l')
    moreover have "concat (map (pieces f) (view ?st)) = concat (map (pieces f) (view st))"
      using rel assms(1) unfolding fe by (rule pass_rel_pieces)
    moreover have "frag_loop grow f (int k * f) (int k * f + f) st
        = frag_loop grow f (int (Suc k) * f) (int (Suc k) * f + f) ?st"
      using True by (subst frag_loop.simps) (simp only: lv One_nat_def if_True fe w1' w2')
    ultimately show ?thesis by simp
  qed
qed

subsection \<open>The whole of Fragment\<close>

lemma map_insort_key:
  "map f (insort_key (\<lambda>a. g (f a)) a xs) = insort_key g (f a) (map f xs)"
  by (induction xs) simp_all

lemma map_sort_key: "map f (sort_key (\<lambda>a. g (f a)) xs) = sort_key g (map f xs)"
  by (induction xs) (simp_all add: map_insort_key)

text \<open>Ordering the addresses by the start of their Items is ordering the Items.\<close>

lemma view_Order:
  "view (st\<lparr>items := Order_by (\<lambda>a. StartAt (heap st ! a)) (items st)\<rparr>)
     = sort_key StartAt (view st)"
  by (simp add: view_def Order_by_sort_key map_sort_key)

lemma Fragment_view:
  assumes "items st \<noteq> []" "frag_loop grow f 0 f st = Some st1"
  shows "\<exists>st'. Fragment grow f st = Some st' \<and> view st' = sort_key StartAt (view st1)"
  using assms by (simp add: Fragment_def view_Order)

lemma tidy_sorted:
  assumes "tidy V"
  shows "sorted (map StartAt V)"
proof -
  have "sorted_wrt (\<lambda>y z. StartAt y \<le> StartAt z) V"
  proof (rule sorted_wrt_mono_rel [of V before])
    show "sorted_wrt before V" using assms by (simp add: tidy_def)
    fix y z assume "y \<in> set V" "z \<in> set V" "before y z"
    then show "StartAt y \<le> StartAt z" using assms by (fastforce simp: tidy_def before_def)
  qed
  then show ?thesis by (simp add: sorted_map)
qed

lemma wf_store_of: "wf_store (store_of xs c)"
  by (simp add: wf_store_def store_of_def)

lemma view_store_of: "view (store_of xs c) = xs"
  by (simp add: view_def store_of_def map_nth)

lemma Fragment_tidy:
  assumes f: "0 < f" and ne: "xs \<noteq> []" and t: "tidy xs" and z: "\<forall>x \<in> set xs. 0 \<le> StartAt x"
    and b: "EndAt (last xs) + 2 * f \<le> 2 ^ 63"
  shows "\<exists>st'. Fragment grow f (store_of xs c) = Some st'
           \<and> view st' = concat (map (pieces f) xs)
           \<and> sorted (map StartAt (view st'))"
proof -
  let ?st = "store_of xs c"
  have v: "view ?st = xs" by (rule view_store_of)
  have inv: "\<forall>x \<in> set (view ?st). \<forall>m \<le> int 0. \<not> strad (m * f) x"
  proof (intro ballI allI impI)
    fix x and m :: int assume x: "x \<in> set (view ?st)" and m: "m \<le> int 0"
    have "m * f \<le> 0" using m f by (simp add: mult_le_0_iff)
    moreover have "0 \<le> StartAt x" using z x by (simp add: v)
    ultimately show "\<not> strad (m * f) x" by (simp add: strad_def)
  qed
  have "\<exists>st'. frag_loop grow f (int 0 * f) (int 0 * f + f) ?st = Some st'
           \<and> wf_store st' \<and> tidy (view st')
           \<and> view st' = concat (map (pieces f) (view ?st))"
    using f wf_store_of _ _ inv by (rule frag_loop_returns) (simp_all only: v t ne b simp_thms)
  then obtain st1 where l: "frag_loop grow f 0 f ?st = Some st1"
    and t1: "tidy (view st1)" and v1: "view st1 = concat (map (pieces f) xs)"
    by (auto simp: v)
  have "items ?st \<noteq> []" using ne by (simp add: store_of_def)
  then obtain st' where r: "Fragment grow f ?st = Some st'"
    and v': "view st' = sort_key StartAt (view st1)"
    using Fragment_view l by blast
  have s1: "sorted (map StartAt (view st1))" using t1 by (rule tidy_sorted)
  then have "sort_key StartAt (view st1) = view st1" by (rule sort_key_id_if_sorted)
  then show ?thesis using r v' v1 s1 by simp
qed

lemma pieces_no_boundary_inside:
  "0 < f \<Longrightarrow> y \<in> set (pieces f x) \<Longrightarrow> \<not> strad (m * f) y"
proof (induction f x rule: pieces.induct)
  case (1 f x)
  let ?b = "next_boundary f (StartAt x)"
  show ?case
  proof (cases "0 < f \<and> ?b < EndAt x")
    case True
    then have p: "pieces f x = x\<lparr>EndAt := ?b\<rparr> # pieces f (x\<lparr>StartAt := ?b\<rparr>)"
      by (subst pieces.simps) simp
    show ?thesis
    proof (cases "y = x\<lparr>EndAt := ?b\<rparr>")
      case y: True
      show ?thesis
      proof
        assume "strad (m * f) y"
        then have s: "StartAt x < m * f" "m * f < ?b" using y by (simp_all add: strad_def)
        have "?b \<le> m * f" using "1.prems"(1) s(1) by (rule next_boundary_least)
        then show False using s(2) by simp
      qed
    next
      case False
      then have "y \<in> set (pieces f (x\<lparr>StartAt := ?b\<rparr>))" using "1.prems"(2) p by simp
      then show ?thesis using "1.IH" True "1.prems"(1) by simp
    qed
  next
    case False
    then have "pieces f x = [x]" by (subst pieces.simps) auto
    then have y: "y = x" using "1.prems"(2) by simp
    show ?thesis
    proof
      assume "strad (m * f) y"
      then have s: "StartAt x < m * f" "m * f < EndAt x" using y by (simp_all add: strad_def)
      have "?b \<le> m * f" using "1.prems"(1) s(1) by (rule next_boundary_least)
      then show False using s(2) False "1.prems"(1) by simp
    qed
  qed
qed

lemma pieces_same_content:
  "y \<in> set (pieces f x) \<Longrightarrow>
     Comments y = Comments x \<and> InlineStyle y = InlineStyle x \<and> Lines y = Lines x
     \<and> Region y = Region x \<and> Style y = Style x"
proof (induction f x rule: pieces.induct)
  case (1 f x)
  let ?b = "next_boundary f (StartAt x)"
  show ?case
  proof (cases "0 < f \<and> ?b < EndAt x")
    case True
    then have p: "pieces f x = x\<lparr>EndAt := ?b\<rparr> # pieces f (x\<lparr>StartAt := ?b\<rparr>)"
      by (subst pieces.simps) simp
    show ?thesis
    proof (cases "y = x\<lparr>EndAt := ?b\<rparr>")
      case True
      then show ?thesis by simp
    next
      case False
      then have "y \<in> set (pieces f (x\<lparr>StartAt := ?b\<rparr>))" using "1.prems" p by simp
      then show ?thesis using "1.IH" True by simp
    qed
  next
    case False
    then have "pieces f x = [x]" by (subst pieces.simps) auto
    then show ?thesis using "1.prems" by simp
  qed
qed

subsection \<open>What Fragment does, and what it leaves\<close>

lemma Fragment_run_example:
  fixes grow :: "nat \<Rightarrow> nat \<Rightarrow> nat"
  defines "x \<equiv> text_item 0 (10 * Second) ''x''" and "y \<equiv> text_item 0 Second ''y''"
  shows "\<exists>st'. Fragment grow (3 * Second) (store_of [x, y] c) = Some st'
           \<and> view st' = [x\<lparr>EndAt := 3 * Second\<rparr>, y, x\<lparr>StartAt := 3 * Second\<rparr>]"
proof -
  let ?f = "3 * Second" and ?st = "store_of [x, y] c"
  let ?st1 = "frag_pass grow 0 ?f 0 (length (items ?st)) None ?st"
  have wf: "wf_store ?st" by (rule wf_store_of)
  have v: "view ?st = [] @ x # [y]" by (simp add: view_store_of)
  have n: "length (items ?st) = 2" by (simp add: store_of_def)
  have sx: "\<not> strad 0 x" "strad ?f x" and sy: "\<not> strad 0 y" "\<not> strad ?f y"
    by (simp_all add: strad_def x_def y_def text_item_def Second_def Millisecond_def)
  have lt: "(0 :: int) < ?f" by (simp add: Second_def Millisecond_def)
  have cl: "\<forall>z \<in> set [] \<union> set [y]. \<not> strad 0 z \<and> \<not> strad ?f z" using sy by simp
  have "wf_store ?st1 \<and> view ?st1 = [] @ x\<lparr>EndAt := ?f\<rparr> # x\<lparr>StartAt := ?f\<rparr> # [y]"
    using wf _ v _ _ cl sx lt
    by (rule frag_pass_search) (simp_all add: n)
  then have wf1: "wf_store ?st1" and v1: "view ?st1 = [x\<lparr>EndAt := ?f\<rparr>, x\<lparr>StartAt := ?f\<rparr>, y]"
    by simp_all
  have l0: "heap ?st ! (items ?st ! (length (items ?st) - Suc 0)) = y"
    using last_view [of ?st] v by simp
  have l1: "heap ?st1 ! (items ?st1 ! (length (items ?st1) - Suc 0)) = y"
    using last_view [of ?st1] v1 by simp
  have c0: "0 < EndAt y" and c1: "\<not> wrap64 (0 + ?f) < EndAt y"
    by (simp_all add: y_def text_item_def wrap64_def Second_def Millisecond_def)
  have "frag_loop grow ?f (wrap64 (0 + ?f)) (wrap64 (?f + ?f)) ?st1 = Some ?st1"
    using c1 by (subst frag_loop.simps) (simp only: l1 One_nat_def if_False)
  moreover have "frag_loop grow ?f 0 ?f ?st
      = frag_loop grow ?f (wrap64 (0 + ?f)) (wrap64 (?f + ?f)) ?st1"
    using c0 by (subst frag_loop.simps) (simp only: l0 One_nat_def if_True)
  ultimately have loop: "frag_loop grow ?f 0 ?f ?st = Some ?st1" by simp
  have "items ?st \<noteq> []" by (simp add: store_of_def)
  then obtain st' where r: "Fragment grow ?f ?st = Some st'"
    and v': "view st' = sort_key StartAt (view ?st1)"
    using Fragment_view loop by blast
  have "sort_key StartAt (view ?st1) = [x\<lparr>EndAt := ?f\<rparr>, y, x\<lparr>StartAt := ?f\<rparr>]"
    unfolding v1 by (simp add: x_def y_def text_item_def Second_def Millisecond_def)
  then show ?thesis using r v' by simp
qed

lemma pieces_example:
  "pieces (3 * Second) (text_item 0 (7 * Second) ''x'')
     = [text_item 0 (3 * Second) ''x'', text_item (3 * Second) (6 * Second) ''x'',
        text_item (6 * Second) (7 * Second) ''x'']"
  by (simp add: pieces.simps next_boundary_def text_item_def Second_def Millisecond_def)

text \<open>
  C8, where the claim fails. The passes go on while the start of the window is before the end
  of the Item at the last position, so an Item that ends later than the last one is not cut at
  every boundary inside it: of the Item "x" from 0s to 10s followed by the Item "y" from 0s to 1s,
  \<^verbatim>\<open>Fragment(3s)\<close> leaves "x" from 3s to 10s, which strictly contains the boundaries 6s and 9s.
\<close>

theorem Fragment_leaves_boundary_inside:
  "\<exists>st'. Fragment (\<lambda>c n. 2 * c) (3 * Second)
            (store_of [text_item 0 (10 * Second) ''x'', text_item 0 Second ''y''] 2) = Some st'
         \<and> view st' = [text_item 0 (3 * Second) ''x'', text_item 0 Second ''y'',
                       text_item (3 * Second) (10 * Second) ''x'']
         \<and> strad (2 * (3 * Second)) (view st' ! 2)
         \<and> strad (3 * (3 * Second)) (view st' ! 2)"
proof -
  obtain st' where "Fragment (\<lambda>c n. 2 * c) (3 * Second)
            (store_of [text_item 0 (10 * Second) ''x'', text_item 0 Second ''y''] 2) = Some st'"
    and "view st' = [(text_item 0 (10 * Second) ''x'')\<lparr>EndAt := 3 * Second\<rparr>,
                     text_item 0 Second ''y'',
                     (text_item 0 (10 * Second) ''x'')\<lparr>StartAt := 3 * Second\<rparr>]"
    using Fragment_run_example by blast
  then show ?thesis
    by (simp add: text_item_def strad_def Second_def Millisecond_def)
qed

text \<open>
  C8, for the documents on which it holds: a non-empty document whose Items last, start at zero
  or later, and follow one another, each ending before the next one starts, the last one two
  fragments or more before the end of \<^verbatim>\<open>int64\<close>. Whatever the
  capacity of the slice and the way \<^verbatim>\<open>append\<close> grows it, \<^verbatim>\<open>Fragment(f)\<close> with \<open>f > 0\<close> returns, and
  the document then holds, in place of each Item and in start order, its pieces between the
  multiples of \<open>f\<close>; no Item strictly contains a multiple of \<open>f\<close> any more.
\<close>

theorem Fragment_cuts_at_every_boundary:
  assumes "0 < f" "xs \<noteq> []" "tidy xs" "\<forall>x \<in> set xs. 0 \<le> StartAt x"
    and "EndAt (last xs) + 2 * f \<le> 2 ^ 63"
  shows "\<exists>st'. Fragment grow f (store_of xs c) = Some st'
           \<and> view st' = concat (map (pieces f) xs)
           \<and> sorted (map StartAt (view st'))
           \<and> (\<forall>y \<in> set (view st'). \<forall>m. \<not> strad (m * f) y)"
proof -
  obtain st' where r: "Fragment grow f (store_of xs c) = Some st'"
    and v: "view st' = concat (map (pieces f) xs)"
    and s: "sorted (map StartAt (view st'))"
    using Fragment_tidy [OF assms] by blast
  have "\<forall>y \<in> set (view st'). \<forall>m. \<not> strad (m * f) y"
    unfolding v using pieces_no_boundary_inside [OF assms(1)] by auto
  then show ?thesis using r v s by blast
qed

theorem Fragment_witness:
  "0 < 3 * Second \<and> tidy [text_item 0 (7 * Second) ''x'']
   \<and> (\<exists>st'. Fragment (\<lambda>c n. 2 * c) (3 * Second)
               (store_of [text_item 0 (7 * Second) ''x''] 1) = Some st'
            \<and> view st' = [text_item 0 (3 * Second) ''x'',
                          text_item (3 * Second) (6 * Second) ''x'',
                          text_item (6 * Second) (7 * Second) ''x''])"
proof -
  have f: "0 < 3 * Second" by (simp add: Second_def Millisecond_def)
  have t: "tidy [text_item 0 (7 * Second) ''x'']"
    by (simp add: tidy_def text_item_def Second_def Millisecond_def)
  have z: "\<forall>x \<in> set [text_item 0 (7 * Second) ''x'']. 0 \<le> StartAt x"
    by (simp add: text_item_def)
  have b: "EndAt (last [text_item 0 (7 * Second) ''x'']) + 2 * (3 * Second) \<le> 2 ^ 63"
    by (simp add: text_item_def Second_def Millisecond_def)
  show ?thesis
    using Fragment_cuts_at_every_boundary
            [where f = "3 * Second" and xs = "[text_item 0 (7 * Second) ''x'']"
               and grow = "\<lambda>c n. 2 * c" and c = 1, OF f _ t z b]
          f t
    by (auto simp: pieces_example)
qed

end
